theory Spec2Isabelle
  imports Complex_Main
begin

section \<open>The waveform analysis of \<^verbatim>\<open>waveform_analysis.py\<close>\<close>

text \<open>
  The class \<^verbatim>\<open>WaveformAnalysis\<close> holds a batch of digitised waveforms and fills in, stage
  by stage, pedestals, peaks, signal times and integrated charges. The object is a record
  here, every method a function from the record to the updated record, and every
  exception that numpy or Python raises on the way is a value of \<open>error\<close>.

  Numbers: raw samples are integers; voltages, times and charges are numpy doubles in the
  source and real numbers here, so rounding is not part of the model. Window bounds and
  the sampling interval are naturals: the source takes any Python integer, the model
  covers the non-negative ones.
\<close>

subsection \<open>Errors\<close>

datatype error =
    ZeroDivisionError  \<comment> \<open>\<^verbatim>\<open>//\<close> by a zero \<^verbatim>\<open>ns_per_sample\<close>\<close>
  | IndexError         \<comment> \<open>a bin outside the waveform, or a batch that is not two-dimensional\<close>
  | ValueError         \<comment> \<open>\<^verbatim>\<open>argmax\<close> of an empty array, ragged rows, \<^verbatim>\<open>interp\<close> on unequal lengths\<close>
  | AttributeError     \<comment> \<open>reading an attribute no stage has set yet\<close>
  | NotANumber         \<comment> \<open>mean of an empty slice: numpy warns and yields NaN, the reals have none\<close>

definition and_then :: "error + 'a \<Rightarrow> ('a \<Rightarrow> error + 'b) \<Rightarrow> error + 'b" where
  "and_then r f = (case r of Inl e \<Rightarrow> Inl e | Inr x \<Rightarrow> f x)"

fun sequence :: "(error + 'a) list \<Rightarrow> error + 'a list" where
  "sequence [] = Inr []"
| "sequence (r # rs) =
     (case r of
        Inl e \<Rightarrow> Inl e
      | Inr x \<Rightarrow> (case sequence rs of Inl e \<Rightarrow> Inl e | Inr xs \<Rightarrow> Inr (x # xs)))"

definition attr :: "'a option \<Rightarrow> error + 'a" where
  "attr v = (case v of None \<Rightarrow> Inl AttributeError | Some x \<Rightarrow> Inr x)"

subsection \<open>The numpy operations the class uses\<close>

text \<open>\<^verbatim>\<open>range(a, b)\<close> over naturals.\<close>

definition py_range :: "nat \<Rightarrow> nat \<Rightarrow> nat list" where
  "py_range a b = [a..<b]"

text \<open>
  \<^verbatim>\<open>a[:, bins]\<close> on one row: the entries at the listed indices, IndexError when one of
  them is past the end.
\<close>

definition fancy_index :: "'a list \<Rightarrow> nat list \<Rightarrow> error + 'a list" where
  "fancy_index row bins =
     (if list_all (\<lambda>j. j < length row) bins then Inr (map (\<lambda>j. row ! j) bins)
      else Inl IndexError)"

definition take_columns :: "'a list list \<Rightarrow> nat list \<Rightarrow> error + 'a list list" where
  "take_columns rows bins =
     (if rows = [] then Inl IndexError
      else sequence (map (\<lambda>row. fancy_index row bins) rows))"

definition np_mean :: "real list \<Rightarrow> real" where
  "np_mean xs = sum_list xs / real (length xs)"

text \<open>\<^verbatim>\<open>np.std\<close> with its default \<^verbatim>\<open>ddof=0\<close>: the root of the mean squared deviation.\<close>

definition np_std :: "real list \<Rightarrow> real" where
  "np_std xs = sqrt (np_mean (map (\<lambda>x. \<bar>x - np_mean xs\<bar>\<^sup>2) xs))"

text \<open>
  \<^verbatim>\<open>np.argmax\<close>: a left-to-right scan that moves only on a strictly larger entry, so
  the first maximum wins. On booleans (False below True) it is the first True, and 0 when
  there is none.
\<close>

fun argmax_scan :: "'a::linorder list \<Rightarrow> nat \<Rightarrow> 'a \<Rightarrow> nat \<Rightarrow> nat" where
  "argmax_scan [] i best pos = pos"
| "argmax_scan (x # xs) i best pos =
     (if best < x then argmax_scan xs (Suc i) x i else argmax_scan xs (Suc i) best pos)"

definition np_argmax :: "'a::linorder list \<Rightarrow> error + nat" where
  "np_argmax xs = (case xs of [] \<Rightarrow> Inl ValueError | x # rest \<Rightarrow> Inr (argmax_scan rest 1 x 0))"

text \<open>\<^verbatim>\<open>np.cumsum\<close>: running sums.\<close>

fun cumsum_from :: "nat \<Rightarrow> nat list \<Rightarrow> nat list" where
  "cumsum_from acc [] = []"
| "cumsum_from acc (x # xs) = (acc + x) # cumsum_from (acc + x) xs"

definition np_cumsum :: "nat list \<Rightarrow> nat list" where
  "np_cumsum xs = cumsum_from 0 xs"

text \<open>
  \<^verbatim>\<open>np.interp(x, xp, fp)\<close> as the class calls it, with two sample values \<open>fp\<close>. numpy
  first clamps (\<open>x\<close> above the last abscissa gives the last value, \<open>x\<close> below the first
  gives the first), then finds the segment by a linear search and returns the value at a
  node when \<open>x\<close> sits on it, the straight line otherwise. It does not check that \<open>xp\<close>
  increases. An \<open>xp\<close> of any other length does not match \<open>fp\<close>: ValueError.
\<close>

definition np_interp :: "real \<Rightarrow> real list \<Rightarrow> real \<times> real \<Rightarrow> error + real" where
  "np_interp x xp fp =
     (case xp of
        [x0, x1] \<Rightarrow>
          (case fp of (f0, f1) \<Rightarrow>
            Inr (if x1 < x then f1
                 else if x < x0 then f0
                 else if x1 \<le> x then f1
                 else if x0 = x then f0
                 else (f1 - f0) / (x1 - x0) * (x - x0) + f0))
      | _ \<Rightarrow> Inl ValueError)"

subsection \<open>The object\<close>

record analysis =
  waveforms :: "int list list"
  threshold :: real
  reverse_polarity :: bool
  ns_per_sample :: nat
  voltage_scale :: real
  analysis_window :: "nat \<times> nat"
  pedestal_window :: "nat \<times> nat"
  analysis_bins :: "nat list"
  pedestal_bins :: "nat list"
  time_offset :: real
  peak_locations :: "nat list option"
  amplitudes :: "real list list option"
  pedestals :: "real list option"
  pedestal_sigmas :: "real list option"
  peak_times :: "real list option"
  peak_voltages :: "real list option"
  signal_times :: "real list option"
  integrated_charges :: "real list option"
  is_over_threshold :: "bool list option"

definition peak_rise_time_fraction :: real where
  "peak_rise_time_fraction = 4 / 10"

definition impedance :: nat where
  "impedance = 50"

text \<open>
  \<^verbatim>\<open>__init__\<close>. \<^verbatim>\<open>np.array\<close> refuses rows of unequal length; the two \<^verbatim>\<open>//\<close> raise on a
  zero sampling interval. Attributes that \<^verbatim>\<open>__init__\<close> sets to None, and those it does
  not set at all, are \<open>None\<close> here; reading one of the latter is an AttributeError.
\<close>

definition init_analysis ::
  "int list list \<Rightarrow> real \<Rightarrow> nat \<times> nat \<Rightarrow> nat \<times> nat \<Rightarrow> bool \<Rightarrow> nat \<Rightarrow> real \<Rightarrow> real
     \<Rightarrow> error + analysis" where
  "init_analysis wfs thr aw pw rp ns vs off =
     (if \<not> list_all (\<lambda>row. length row = length (hd wfs)) wfs then Inl ValueError
      else if ns = 0 then Inl ZeroDivisionError
      else Inr \<lparr> waveforms = wfs, threshold = thr, reverse_polarity = rp,
                 ns_per_sample = ns, voltage_scale = vs,
                 analysis_window = aw, pedestal_window = pw,
                 analysis_bins = py_range (fst aw div ns) (snd aw div ns),
                 pedestal_bins = py_range (fst pw div ns) (snd pw div ns),
                 time_offset = off,
                 peak_locations = None, amplitudes = None, pedestals = None,
                 pedestal_sigmas = None, peak_times = None, peak_voltages = None,
                 signal_times = None, integrated_charges = None,
                 is_over_threshold = None \<rparr>)"

subsection \<open>Pedestal stage\<close>

definition find_pedestals :: "analysis \<Rightarrow> error + analysis" where
  "find_pedestals s =
     (let amps = map (map (\<lambda>x. real_of_int x * voltage_scale s)) (waveforms s) in
      and_then (take_columns amps (pedestal_bins s)) (\<lambda>quiet.
        if pedestal_bins s = [] then Inl NotANumber
        else
          let peds = map np_mean quiet;
              sigmas = map np_std quiet;
              amps1 = map2 (\<lambda>row p. map (\<lambda>a. a - p) row) amps peds;
              amps2 = (if reverse_polarity s then map (map (\<lambda>a. a * (- 1))) amps1 else amps1)
          in Inr (s\<lparr> amplitudes := Some amps2, pedestals := Some peds,
                     pedestal_sigmas := Some sigmas \<rparr>)))"

subsection \<open>Peak stage\<close>

definition find_peaks :: "analysis \<Rightarrow> error + analysis" where
  "find_peaks s =
     and_then (if amplitudes s = None then find_pedestals s else Inr s) (\<lambda>s1.
     and_then (attr (amplitudes s1)) (\<lambda>amps.
     and_then (take_columns amps (analysis_bins s1)) (\<lambda>window.
     and_then (sequence (map np_argmax window)) (\<lambda>locs.
       Inr (s1\<lparr> peak_locations := Some locs,
                 peak_times := Some (map (\<lambda>l. real (fst (analysis_window s1))
                                  + (real l + 1 / 2) * real (ns_per_sample s1)) locs),
                 peak_voltages := Some (map2 (\<lambda>row l. row ! l) window locs) \<rparr>)))))"

subsection \<open>Timing stage\<close>

text \<open>
  One turn of the loop of \<^verbatim>\<open>calculate_signal_times\<close>: the entry appended to
  \<^verbatim>\<open>signal_times\<close> for a waveform with peak voltage \<open>peak\<close>, peak location \<open>loc\<close> (counted
  from the start of the analysis window) and corrected samples \<open>amp\<close>. \<^verbatim>\<open>amp[loc-1::-1]\<close>
  is \<open>rev (take loc amp)\<close> once \<open>loc\<close> is positive, and \<^verbatim>\<open>amp[i-1:i+1]\<close> is
  \<open>take 2 (drop (i - 1) amp)\<close> once \<open>i\<close> is.
\<close>

definition signal_time_entry :: "analysis \<Rightarrow> real \<Rightarrow> nat \<Rightarrow> real list \<Rightarrow> error + real" where
  "signal_time_entry s peak loc0 amp =
     (if loc0 = 0 then Inr 0
      else
        (case analysis_bins s of
           [] \<Rightarrow> Inl IndexError
         | b0 # _ \<Rightarrow>
             let loc = loc0 + b0;
                 threshold = peak_rise_time_fraction * peak
             in and_then (np_argmax (map (\<lambda>a. a < threshold) (rev (take loc amp)))) (\<lambda>k.
                  let i = loc - k;
                      time_range = (real (fst (analysis_window s)) + (real i - 1),
                                    real (fst (analysis_window s)) + real i)
                  in np_interp threshold (take 2 (drop (i - 1) amp)) time_range)))"

definition calculate_signal_times :: "analysis \<Rightarrow> error + analysis" where
  "calculate_signal_times s =
     and_then (if peak_locations s = None then find_peaks s else Inr s) (\<lambda>s1.
     and_then (attr (peak_voltages s1)) (\<lambda>peaks.
     and_then (attr (peak_locations s1)) (\<lambda>locs.
     and_then (attr (amplitudes s1)) (\<lambda>amps.
     and_then (sequence (map (\<lambda>(peak, loc, amp). signal_time_entry s1 peak loc amp)
                          (zip peaks (zip locs amps)))) (\<lambda>entries.
       Inr (s1\<lparr> signal_times :=
                   Some (map (\<lambda>t. t * real (ns_per_sample s1) + time_offset s1) entries) \<rparr>))))))"

subsection \<open>Charge stage\<close>

text \<open>
  The row of \<^verbatim>\<open>before_peak_fall & after_peak_rise\<close> for one waveform with pedestal sigma
  \<open>sigma\<close> and peak at sample \<open>peak_index\<close>, and the row sum of the masked samples.
\<close>

definition below_threshold :: "real list \<Rightarrow> real \<Rightarrow> bool list" where
  "below_threshold amp sigma = map (\<lambda>a. a < 3 * sigma) amp"

definition before_peak_fall :: "real list \<Rightarrow> real \<Rightarrow> nat \<Rightarrow> bool list" where
  "before_peak_fall amp sigma peak_index =
     map (\<lambda>c. c = 0)
       (np_cumsum (map2 (\<lambda>j b. of_bool (peak_index < j \<and> b))
                     [0..<length amp] (below_threshold amp sigma)))"

definition after_peak_rise :: "real list \<Rightarrow> real \<Rightarrow> nat \<Rightarrow> bool list" where
  "after_peak_rise amp sigma peak_index =
     map (\<lambda>c. c = 0)
       (rev (np_cumsum (rev (map2 (\<lambda>j b. of_bool (j < peak_index \<and> b))
                                [0..<length amp] (below_threshold amp sigma)))))"

definition charge_mask :: "real list \<Rightarrow> real \<Rightarrow> nat \<Rightarrow> bool list" where
  "charge_mask amp sigma peak_index =
     map2 (\<lambda>a b. a \<and> b) (before_peak_fall amp sigma peak_index)
                         (after_peak_rise amp sigma peak_index)"

definition masked_sum :: "real list \<Rightarrow> real \<Rightarrow> nat \<Rightarrow> real" where
  "masked_sum amp sigma peak_index =
     sum_list (map2 (\<lambda>a m. a * of_bool m) amp (charge_mask amp sigma peak_index))"

definition integrate_charges :: "analysis \<Rightarrow> error + analysis" where
  "integrate_charges s =
     and_then (if peak_locations s = None then find_peaks s else Inr s) (\<lambda>s1.
     and_then (attr (amplitudes s1)) (\<lambda>amps.
     and_then (attr (pedestal_sigmas s1)) (\<lambda>sigmas.
     and_then (attr (peak_locations s1)) (\<lambda>locs.
       (case analysis_bins s1 of
          [] \<Rightarrow> Inl IndexError
        | b0 # _ \<Rightarrow>
            Inr (s1\<lparr> integrated_charges :=
                   Some (map (\<lambda>(amp, sigma, loc).
                                masked_sum amp sigma (loc + b0)
                                  * (real (ns_per_sample s1) / real impedance))
                             (zip amps (zip sigmas locs))) \<rparr>))))))"

subsection \<open>The whole run\<close>

definition run_analysis :: "analysis \<Rightarrow> error + analysis" where
  "run_analysis s =
     and_then (find_peaks s) (\<lambda>s1.
     and_then (calculate_signal_times s1) (\<lambda>s2.
     and_then (integrate_charges s2) (\<lambda>s3.
     and_then (attr (peak_voltages s3)) (\<lambda>peaks.
       Inr (s3\<lparr> is_over_threshold := Some (map (\<lambda>p. threshold s3 < p) peaks) \<rparr>)))))"

subsection \<open>Derived notions used in the statements\<close>

text \<open>The index \<^verbatim>\<open>np.argmax\<close> returns on a non-empty array.\<close>

definition first_max :: "'a::linorder list \<Rightarrow> nat" where
  "first_max xs = argmax_scan (tl xs) 1 (hd xs) 0"


text \<open>
  The configuration invariant of the design: a non-empty rectangular batch, a positive
  sampling interval, and both windows non-empty and inside the waveform.
\<close>

definition valid_input :: "int list list \<Rightarrow> nat \<times> nat \<Rightarrow> nat \<times> nat \<Rightarrow> nat \<Rightarrow> bool" where
  "valid_input wfs aw pw ns \<longleftrightarrow>
     wfs \<noteq> [] \<and> list_all (\<lambda>row. length row = length (hd wfs)) wfs \<and> 0 < ns \<and>
     fst aw div ns < snd aw div ns \<and> snd aw div ns \<le> length (hd wfs) \<and>
     fst pw div ns < snd pw div ns \<and> snd pw div ns \<le> length (hd wfs)"

text \<open>
  Row-wise readings of the pedestal stage: the scaled samples of a raw waveform, its
  samples in the pedestal bins, and its corrected amplitudes.
\<close>

definition scaled_row :: "real \<Rightarrow> int list \<Rightarrow> real list" where
  "scaled_row vs raw = map (\<lambda>x. real_of_int x * vs) raw"

definition quiet_samples :: "real \<Rightarrow> nat list \<Rightarrow> int list \<Rightarrow> real list" where
  "quiet_samples vs bins raw = map (\<lambda>j. scaled_row vs raw ! j) bins"

definition corrected_row :: "bool \<Rightarrow> real \<Rightarrow> nat list \<Rightarrow> int list \<Rightarrow> real list" where
  "corrected_row rp vs bins raw =
     map (\<lambda>a. if rp then (a - np_mean (quiet_samples vs bins raw)) * (- 1)
               else a - np_mean (quiet_samples vs bins raw)) (scaled_row vs raw)"

text \<open>The samples of a row at the given bins.\<close>

definition window_of :: "nat list \<Rightarrow> real list \<Rightarrow> real list" where
  "window_of bins row = map (\<lambda>j. row ! j) bins"

text \<open>
  The offset \<^verbatim>\<open>np.argmax(amp[loc-1::-1] < threshold)\<close> of one loop turn: how far
  before sample \<open>loc - 1\<close> the backward scan finds its first sample below \<open>thr\<close>, and
  0 when it finds none.
\<close>

definition scan_offset :: "real \<Rightarrow> nat \<Rightarrow> real list \<Rightarrow> nat" where
  "scan_offset thr loc amp = first_max (map (\<lambda>a. a < thr) (rev (take loc amp)))"

text \<open>The crossing of the design: the fractional index at which the straight line through
  sample \<open>i\<close> (value \<open>a\<close>) and sample \<open>i + 1\<close> (value \<open>b\<close>) takes the value \<open>y\<close>.\<close>

definition interpolated_crossing :: "real \<Rightarrow> real \<Rightarrow> real \<Rightarrow> nat \<Rightarrow> real" where
  "interpolated_crossing y a b i = real i + (y - a) / (b - a)"

text \<open>Reading an attribute of the object that a call returned.\<close>

definition read_attr :: "(analysis \<Rightarrow> 'a option) \<Rightarrow> error + analysis \<Rightarrow> error + 'a" where
  "read_attr field r = and_then r (\<lambda>s. attr (field s))"

text \<open>
  The integration region of the design, for corrected samples \<open>amp\<close>, pedestal sigma
  \<open>sigma\<close> and peak at sample \<open>p\<close>: from just after the first sample below
  \<open>3 * sigma\<close> found going left from the peak (from the start when there is none) up
  to, and excluding, the first such sample found going right from the peak (up to the end
  when there is none).
\<close>

definition first_below_before :: "real list \<Rightarrow> real \<Rightarrow> nat \<Rightarrow> nat option" where
  "first_below_before amp sigma p = find (\<lambda>k. amp ! k < 3 * sigma) (rev [0..<p])"

definition first_below_after :: "real list \<Rightarrow> real \<Rightarrow> nat \<Rightarrow> nat option" where
  "first_below_after amp sigma p = find (\<lambda>k. amp ! k < 3 * sigma) [Suc p..<length amp]"

definition charge_region :: "real list \<Rightarrow> real \<Rightarrow> nat \<Rightarrow> nat list" where
  "charge_region amp sigma p =
     [(case first_below_before amp sigma p of None \<Rightarrow> 0 | Some k \<Rightarrow> Suc k)
      ..< (case first_below_after amp sigma p of None \<Rightarrow> length amp | Some k \<Rightarrow> k)]"

text \<open>A waveform with the samples selected by a row of flags scaled by \<open>c\<close>.\<close>

definition scale_region :: "real \<Rightarrow> real list \<Rightarrow> bool list \<Rightarrow> real list" where
  "scale_region c amp sel = map2 (\<lambda>a m. if m then c * a else a) amp sel"

section \<open>Properties\<close>

subsection \<open>Results and sequencing\<close>

lemma and_then_Inr [simp]: "and_then (Inr x) f = f x"
  by (simp add: and_then_def)

lemma and_then_Inl [simp]: "and_then (Inl e) f = Inl e"
  by (simp add: and_then_def)

lemma and_then_eq_Inr:
  "and_then r f = Inr y \<longleftrightarrow> (\<exists>x. r = Inr x \<and> f x = Inr y)"
  by (cases r) simp_all

lemma sequence_map_Inr:
  "sequence (map (\<lambda>x. Inr (g x)) xs) = Inr (map g xs)"
  by (induction xs) auto

lemma sequence_map_ok:
  "(\<And>x. x \<in> set xs \<Longrightarrow> f x = Inr (g x)) \<Longrightarrow> sequence (map f xs) = Inr (map g xs)"
  by (induction xs) simp_all

subsection \<open>\<^verbatim>\<open>argmax\<close>: the first maximum\<close>

lemma argmax_scan_cases:
  "(argmax_scan xs i best pos = pos \<and> (\<forall>x\<in>set xs. x \<le> best)) \<or>
   (\<exists>j<length xs. argmax_scan xs i best pos = i + j \<and> best < xs ! j
       \<and> (\<forall>k<length xs. xs ! k \<le> xs ! j) \<and> (\<forall>k<j. xs ! k < xs ! j))"
proof (induction xs arbitrary: i best pos)
  case Nil
  then show ?case by simp
next
  case (Cons x xs)
  show ?case
  proof (cases "best < x")
    case True
    from Cons.IH[of "Suc i" x i] show ?thesis
    proof
      assume a: "argmax_scan xs (Suc i) x i = i \<and> (\<forall>y\<in>set xs. y \<le> x)"
      have "\<forall>k<length (x # xs). (x # xs) ! k \<le> (x # xs) ! 0"
        using a by (auto simp: nth_Cons split: nat.splits)
      with a True show ?thesis
        by (intro disjI2 exI[of _ 0]) simp
    next
      assume "\<exists>j<length xs. argmax_scan xs (Suc i) x i = Suc i + j \<and> x < xs ! j
       \<and> (\<forall>k<length xs. xs ! k \<le> xs ! j) \<and> (\<forall>k<j. xs ! k < xs ! j)"
      then obtain j where j: "j < length xs" "argmax_scan xs (Suc i) x i = Suc i + j" "x < xs ! j"
        "\<forall>k<length xs. xs ! k \<le> xs ! j" "\<forall>k<j. xs ! k < xs ! j"
        by blast
      have 1: "\<forall>k<length (x # xs). (x # xs) ! k \<le> (x # xs) ! Suc j"
        using j by (auto simp: nth_Cons split: nat.splits)
      have 2: "\<forall>k<Suc j. (x # xs) ! k < (x # xs) ! Suc j"
        using j by (auto simp: nth_Cons split: nat.splits)
      have 3: "best < (x # xs) ! Suc j"
        using j True by simp
      show ?thesis
        using True j(1,2) 1 2 3 by (intro disjI2 exI[of _ "Suc j"]) simp
    qed
  next
    case False
    from Cons.IH[of "Suc i" best pos] show ?thesis
    proof
      assume "argmax_scan xs (Suc i) best pos = pos \<and> (\<forall>y\<in>set xs. y \<le> best)"
      with False show ?thesis by auto
    next
      assume "\<exists>j<length xs. argmax_scan xs (Suc i) best pos = Suc i + j \<and> best < xs ! j
       \<and> (\<forall>k<length xs. xs ! k \<le> xs ! j) \<and> (\<forall>k<j. xs ! k < xs ! j)"
      then obtain j where j: "j < length xs" "argmax_scan xs (Suc i) best pos = Suc i + j"
        "best < xs ! j" "\<forall>k<length xs. xs ! k \<le> xs ! j" "\<forall>k<j. xs ! k < xs ! j"
        by blast
      have 1: "\<forall>k<length (x # xs). (x # xs) ! k \<le> (x # xs) ! Suc j"
        using j False by (auto simp: nth_Cons split: nat.splits)
      have 2: "\<forall>k<Suc j. (x # xs) ! k < (x # xs) ! Suc j"
        using j False by (auto simp: nth_Cons split: nat.splits)
      have 3: "best < (x # xs) ! Suc j"
        using j by simp
      show ?thesis
        using False j(1,2) 1 2 3 by (intro disjI2 exI[of _ "Suc j"]) simp
    qed
  qed
qed

lemma np_argmax_first_max: "xs \<noteq> [] \<Longrightarrow> np_argmax xs = Inr (first_max xs)"
  by (cases xs) (simp_all add: np_argmax_def first_max_def)

lemma first_max_spec:
  assumes "xs \<noteq> []"
  shows "first_max xs < length xs"
    and "\<forall>k<length xs. xs ! k \<le> xs ! first_max xs"
    and "\<forall>k<first_max xs. xs ! k < xs ! first_max xs"
proof -
  obtain x rest where xs: "xs = x # rest" using assms by (cases xs) auto
  define r where "r = argmax_scan rest (Suc 0) x 0"
  have fm: "first_max (x # rest) = r" by (simp add: first_max_def r_def)
  have "r < Suc (length rest) \<and> (\<forall>k<Suc (length rest). (x # rest) ! k \<le> (x # rest) ! r)
      \<and> (\<forall>k<r. (x # rest) ! k < (x # rest) ! r)"
  proof -
    from argmax_scan_cases[of rest "Suc 0" x 0]
    consider (stay) "r = 0" "\<forall>y\<in>set rest. y \<le> x"
      | (move) j where "j < length rest" "r = Suc j" "x < rest ! j"
          "\<forall>k<length rest. rest ! k \<le> rest ! j" "\<forall>k<j. rest ! k < rest ! j"
      unfolding r_def by auto
    then show ?thesis
    proof cases
      case stay
      then show ?thesis by (simp add: less_Suc_eq_0_disj) auto
    next
      case move
      have "x \<le> rest ! j" using move(3) by simp
      with move show ?thesis by (simp add: less_Suc_eq_0_disj) auto
    qed
  qed
  then show "first_max xs < length xs"
    and "\<forall>k<length xs. xs ! k \<le> xs ! first_max xs"
    and "\<forall>k<first_max xs. xs ! k < xs ! first_max xs" unfolding xs fm length_Cons by blast+
qed


lemma first_max_unique:
  assumes "r < length xs" "\<forall>k<length xs. xs ! k \<le> xs ! r" "\<forall>k<r. xs ! k < xs ! r"
  shows "first_max xs = r"
proof -
  have ne: "xs \<noteq> []" using assms(1) by auto
  note s = first_max_spec[OF ne]
  show ?thesis
  proof (rule ccontr)
    assume "first_max xs \<noteq> r"
    then consider "first_max xs < r" | "r < first_max xs" by linarith
    then show False
    proof cases
      case 1
      with assms(3) have "xs ! first_max xs < xs ! r" by blast
      moreover from s(2) assms(1) have "xs ! r \<le> xs ! first_max xs" by blast
      ultimately show False by simp
    next
      case 2
      with s(3) have "xs ! r < xs ! first_max xs" by blast
      moreover from assms(2) s(1) have "xs ! first_max xs \<le> xs ! r" by blast
      ultimately show False by simp
    qed
  qed
qed

lemma first_max_bool:
  assumes "bs \<noteq> []"
  shows "(\<exists>k<length bs. bs ! k) \<Longrightarrow> bs ! first_max bs \<and> (\<forall>k<first_max bs. \<not> bs ! k)"
    and "\<not> (\<exists>k<length bs. bs ! k) \<Longrightarrow> first_max bs = 0"
proof -
  note s = first_max_spec[OF assms]
  show "bs ! first_max bs \<and> (\<forall>k<first_max bs. \<not> bs ! k)" if "\<exists>k<length bs. bs ! k"
  proof -
    from that obtain k where "k < length bs" "bs ! k" by blast
    with s(2) have "bs ! first_max bs" by (auto simp: le_bool_def)
    moreover have "\<forall>k<first_max bs. \<not> bs ! k" using s(3) by (auto simp: less_bool_def)
    ultimately show ?thesis by blast
  qed
  show "first_max bs = 0" if "\<not> (\<exists>k<length bs. bs ! k)"
  proof (rule ccontr)
    assume "first_max bs \<noteq> 0"
    then have "0 < first_max bs" by simp
    with s(3) have "bs ! 0 < bs ! first_max bs" by blast
    then have "bs ! first_max bs" by (simp add: less_bool_def)
    with that s(1) show False by blast
  qed
qed

subsection \<open>Which stage sets which attribute\<close>

lemma find_pedestals_sets:
  assumes "find_pedestals s = Inr s1"
  shows "amplitudes s1 \<noteq> None" and "peak_locations s1 = peak_locations s"
  using assms
  by (auto simp: find_pedestals_def Let_def and_then_eq_Inr split: if_splits)

lemma find_peaks_after_pedestals:
  assumes "amplitudes s = None"
  shows "find_peaks s = and_then (find_pedestals s) find_peaks"
proof (cases "find_pedestals s")
  case (Inl e)
  then show ?thesis using assms by (simp add: find_peaks_def)
next
  case (Inr s1)
  then have "amplitudes s1 \<noteq> None" by (rule find_pedestals_sets)
  then obtain a where "amplitudes s1 = Some a" by blast
  then show ?thesis using assms Inr by (simp add: find_peaks_def)
qed

lemma find_peaks_sets:
  assumes "find_peaks s = Inr s2"
  shows "peak_locations s2 \<noteq> None" and "amplitudes s2 \<noteq> None"
  using assms
  by (auto simp: find_peaks_def and_then_eq_Inr attr_def split: if_splits option.splits
           dest: find_pedestals_sets)

lemma calculate_signal_times_after_peaks:
  assumes "peak_locations s = None"
  shows "calculate_signal_times s = and_then (find_peaks s) calculate_signal_times"
proof (cases "find_peaks s")
  case (Inl e)
  then show ?thesis using assms by (simp add: calculate_signal_times_def)
next
  case (Inr s2)
  then have "peak_locations s2 \<noteq> None" by (rule find_peaks_sets)
  then obtain l where "peak_locations s2 = Some l" by blast
  then show ?thesis using assms Inr by (simp add: calculate_signal_times_def)
qed

lemma integrate_charges_after_peaks:
  assumes "peak_locations s = None"
  shows "integrate_charges s = and_then (find_peaks s) integrate_charges"
proof (cases "find_peaks s")
  case (Inl e)
  then show ?thesis using assms by (simp add: integrate_charges_def)
next
  case (Inr s2)
  then have "peak_locations s2 \<noteq> None" by (rule find_peaks_sets)
  then obtain l where "peak_locations s2 = Some l" by blast
  then show ?thesis using assms Inr by (simp add: integrate_charges_def)
qed

lemma init_analysis_fresh:
  assumes "init_analysis wfs thr aw pw rp ns vs off = Inr s"
  shows "amplitudes s = None" and "peak_locations s = None"
  using assms by (auto simp: init_analysis_def split: if_splits)

lemma and_then_assoc: "and_then (and_then r f) g = and_then r (\<lambda>x. and_then (f x) g)"
  by (cases r) simp_all

subsection \<open>The stages on a valid input\<close>

lemma map2_map_same: "map2 g xs (map f xs) = map (\<lambda>x. g x (f x)) xs"
  by (induction xs) simp_all

lemma take_columns_ok:
  assumes "rows \<noteq> []" "\<forall>row\<in>set rows. \<forall>j\<in>set bins. j < length row"
  shows "take_columns rows bins = Inr (map (\<lambda>row. map (\<lambda>j. row ! j) bins) rows)"
proof -
  have "\<And>row. row \<in> set rows \<Longrightarrow> fancy_index row bins = Inr (map (\<lambda>j. row ! j) bins)"
    using assms(2) by (simp add: fancy_index_def list_all_iff)
  then have "sequence (map (\<lambda>row. fancy_index row bins) rows)
      = Inr (map (\<lambda>row. map (\<lambda>j. row ! j) bins) rows)"
    by (rule sequence_map_ok)
  then show ?thesis using assms(1) by (simp add: take_columns_def)
qed

lemma find_pedestals_valid:
  assumes "waveforms s \<noteq> []" "\<forall>row\<in>set (waveforms s). length row = M"
    and "pedestal_bins s \<noteq> []" "\<forall>j\<in>set (pedestal_bins s). j < M"
  shows "find_pedestals s =
     Inr (s\<lparr> amplitudes := Some (map (corrected_row (reverse_polarity s) (voltage_scale s) (pedestal_bins s)) (waveforms s)),
              pedestals := Some (map (\<lambda>raw. np_mean (quiet_samples (voltage_scale s) (pedestal_bins s) raw)) (waveforms s)),
              pedestal_sigmas := Some (map (\<lambda>raw. np_std (quiet_samples (voltage_scale s) (pedestal_bins s) raw)) (waveforms s)) \<rparr>)"
proof -
  let ?amps = "map (map (\<lambda>x. real_of_int x * voltage_scale s)) (waveforms s)"
  have tc: "take_columns ?amps (pedestal_bins s)
      = Inr (map (\<lambda>row. map (\<lambda>j. row ! j) (pedestal_bins s)) ?amps)"
    using assms by (intro take_columns_ok) auto
  show ?thesis
    unfolding find_pedestals_def Let_def tc and_then_Inr
    using assms(3)
    by (simp add: map2_map_same o_def corrected_row_def quiet_samples_def scaled_row_def
             zip_map1 zip_map2 zip_same_conv_map)
qed

lemma find_peaks_valid:
  assumes "amplitudes s = Some amps" "amps \<noteq> []"
    and "\<forall>row\<in>set amps. \<forall>j\<in>set (analysis_bins s). j < length row"
    and "analysis_bins s \<noteq> []"
  shows "find_peaks s =
     Inr (s\<lparr> peak_locations := Some (map (\<lambda>row. first_max (window_of (analysis_bins s) row)) amps),
              peak_times := Some (map (\<lambda>row. real (fst (analysis_window s))
                  + (real (first_max (window_of (analysis_bins s) row)) + 1 / 2) * real (ns_per_sample s)) amps),
              peak_voltages := Some (map (\<lambda>row. window_of (analysis_bins s) row
                                                   ! first_max (window_of (analysis_bins s) row)) amps) \<rparr>)"
proof -
  have tc: "take_columns amps (analysis_bins s) = Inr (map (window_of (analysis_bins s)) amps)"
    unfolding window_of_def using assms(2,3) by (intro take_columns_ok) auto
  have am: "sequence (map (\<lambda>row. np_argmax (window_of (analysis_bins s) row)) amps)
      = Inr (map (\<lambda>row. first_max (window_of (analysis_bins s) row)) amps)"
    by (rule sequence_map_ok, rule np_argmax_first_max) (use assms(4) in \<open>auto simp: window_of_def\<close>)
  show ?thesis
    unfolding find_peaks_def
    using assms(1)
    by (simp add: attr_def tc am o_def map2_map_same zip_map1 zip_map2 zip_same_conv_map)
qed

lemma valid_inputD:
  assumes "valid_input wfs aw pw ns"
  shows "wfs \<noteq> []" "\<forall>row\<in>set wfs. length row = length (hd wfs)" "0 < ns"
    "fst aw div ns < snd aw div ns" "snd aw div ns \<le> length (hd wfs)"
    "fst pw div ns < snd pw div ns" "snd pw div ns \<le> length (hd wfs)"
  using assms unfolding valid_input_def list_all_iff by blast+

lemma length_corrected_row [simp]: "length (corrected_row rp vs bins raw) = length raw"
  by (simp add: corrected_row_def scaled_row_def)

lemma init_analysis_fields:
  assumes "init_analysis wfs thr aw pw rp ns vs off = Inr s"
  shows "waveforms s = wfs" "threshold s = thr" "reverse_polarity s = rp" "ns_per_sample s = ns"
    "voltage_scale s = vs" "analysis_window s = aw" "pedestal_window s = pw"
    "analysis_bins s = [fst aw div ns..<snd aw div ns]"
    "pedestal_bins s = [fst pw div ns..<snd pw div ns]"
    "time_offset s = off"
  using assms by (auto simp: init_analysis_def py_range_def split: if_splits)

lemma init_analysis_valid:
  assumes "valid_input wfs aw pw ns"
  shows "\<exists>s. init_analysis wfs thr aw pw rp ns vs off = Inr s"
  using assms by (simp add: init_analysis_def valid_input_def)

lemma fresh_state:
  assumes "valid_input wfs aw pw ns"
  obtains s where "init_analysis wfs thr aw pw rp ns vs off = Inr s"
    "waveforms s = wfs" "threshold s = thr" "reverse_polarity s = rp" "ns_per_sample s = ns"
    "voltage_scale s = vs" "analysis_window s = aw" "pedestal_window s = pw"
    "analysis_bins s = [fst aw div ns..<snd aw div ns]"
    "pedestal_bins s = [fst pw div ns..<snd pw div ns]"
    "time_offset s = off" "amplitudes s = None" "peak_locations s = None"
proof -
  obtain s where s: "init_analysis wfs thr aw pw rp ns vs off = Inr s"
    using init_analysis_valid[OF assms] by blast
  show ?thesis
    by (rule that[OF s init_analysis_fields[OF s] init_analysis_fresh[OF s]])
qed

lemma pedestals_from_fresh:
  assumes "valid_input wfs aw pw ns"
  obtains s where
    "and_then (init_analysis wfs thr aw pw rp ns vs off) find_pedestals = Inr s"
    "amplitudes s = Some (map (corrected_row rp vs [fst pw div ns..<snd pw div ns]) wfs)"
    "pedestals s = Some (map (\<lambda>raw. np_mean (quiet_samples vs [fst pw div ns..<snd pw div ns] raw)) wfs)"
    "pedestal_sigmas s = Some (map (\<lambda>raw. np_std (quiet_samples vs [fst pw div ns..<snd pw div ns] raw)) wfs)"
    "analysis_bins s = [fst aw div ns..<snd aw div ns]"
    "analysis_window s = aw" "ns_per_sample s = ns" "time_offset s = off" "threshold s = thr"
    "peak_locations s = None"
proof -
  note v = valid_inputD[OF assms]
  obtain s0 where s0: "init_analysis wfs thr aw pw rp ns vs off = Inr s0"
    "waveforms s0 = wfs" "threshold s0 = thr" "reverse_polarity s0 = rp" "ns_per_sample s0 = ns"
    "voltage_scale s0 = vs" "analysis_window s0 = aw" "pedestal_window s0 = pw"
    "analysis_bins s0 = [fst aw div ns..<snd aw div ns]"
    "pedestal_bins s0 = [fst pw div ns..<snd pw div ns]"
    "time_offset s0 = off" "amplitudes s0 = None" "peak_locations s0 = None"
    by (rule fresh_state[OF assms])
  have a1: "waveforms s0 \<noteq> []" unfolding s0(2) by (rule v(1))
  have a2: "\<forall>row\<in>set (waveforms s0). length row = length (hd wfs)"
    unfolding s0(2) by (rule v(2))
  have a3: "pedestal_bins s0 \<noteq> []" unfolding s0(10) using v(6) by simp
  have a4: "\<forall>j\<in>set (pedestal_bins s0). j < length (hd wfs)"
    unfolding s0(10) using v(7) by simp
  note fp = find_pedestals_valid[OF a1 a2 a3 a4, unfolded s0(2,4,6,10)]
  show ?thesis
  proof (rule that)
    show "and_then (init_analysis wfs thr aw pw rp ns vs off) find_pedestals = Inr
       (s0\<lparr>amplitudes := Some (map (corrected_row rp vs [fst pw div ns..<snd pw div ns]) wfs),
            pedestals := Some (map (\<lambda>raw. np_mean (quiet_samples vs [fst pw div ns..<snd pw div ns] raw)) wfs),
            pedestal_sigmas := Some (map (\<lambda>raw. np_std (quiet_samples vs [fst pw div ns..<snd pw div ns] raw)) wfs)\<rparr>)"
      by (simp add: s0(1) fp)
  qed (simp_all add: s0)
qed

lemma peaks_from_fresh:
  fixes rp :: bool and vs :: real
  assumes "valid_input wfs aw pw ns"
  defines "amps \<equiv> map (corrected_row rp vs [fst pw div ns..<snd pw div ns]) wfs"
  defines "bins \<equiv> [fst aw div ns..<snd aw div ns]"
  obtains s where
    "and_then (init_analysis wfs thr aw pw rp ns vs off) find_peaks = Inr s"
    "amplitudes s = Some amps"
    "pedestals s = Some (map (\<lambda>raw. np_mean (quiet_samples vs [fst pw div ns..<snd pw div ns] raw)) wfs)"
    "pedestal_sigmas s = Some (map (\<lambda>raw. np_std (quiet_samples vs [fst pw div ns..<snd pw div ns] raw)) wfs)"
    "peak_locations s = Some (map (\<lambda>row. first_max (window_of bins row)) amps)"
    "peak_times s = Some (map (\<lambda>row. real (fst aw)
         + (real (first_max (window_of bins row)) + 1 / 2) * real ns) amps)"
    "peak_voltages s = Some (map (\<lambda>row. window_of bins row ! first_max (window_of bins row)) amps)"
    "analysis_bins s = bins"
    "analysis_window s = aw" "ns_per_sample s = ns" "time_offset s = off" "threshold s = thr"
proof -
  note v = valid_inputD[OF assms(1)]
  obtain s1 where s1:
    "and_then (init_analysis wfs thr aw pw rp ns vs off) find_pedestals = Inr s1"
    "amplitudes s1 = Some amps"
    "pedestals s1 = Some (map (\<lambda>raw. np_mean (quiet_samples vs [fst pw div ns..<snd pw div ns] raw)) wfs)"
    "pedestal_sigmas s1 = Some (map (\<lambda>raw. np_std (quiet_samples vs [fst pw div ns..<snd pw div ns] raw)) wfs)"
    "analysis_bins s1 = bins"
    "analysis_window s1 = aw" "ns_per_sample s1 = ns" "time_offset s1 = off" "threshold s1 = thr"
    "peak_locations s1 = None"
    unfolding amps_def bins_def by (rule pedestals_from_fresh[OF assms(1)])
  have b1: "amps \<noteq> []" unfolding amps_def using v(1) by simp
  have b2: "\<forall>row\<in>set amps. \<forall>j\<in>set (analysis_bins s1). j < length row"
  proof (intro ballI)
    fix row j assume "row \<in> set amps" "j \<in> set (analysis_bins s1)"
    then obtain raw where raw: "raw \<in> set wfs"
      "row = corrected_row rp vs [fst pw div ns..<snd pw div ns] raw"
      unfolding amps_def by auto
    have "length raw = length (hd wfs)" using v(2) raw(1) by blast
    then have "length row = length (hd wfs)" unfolding raw(2) by simp
    moreover have "j < snd aw div ns"
      using \<open>j \<in> set (analysis_bins s1)\<close> unfolding s1(5) bins_def by simp
    ultimately show "j < length row" using v(5) by linarith
  qed
  have b3: "analysis_bins s1 \<noteq> []" unfolding s1(5) bins_def using v(4) by simp
  note pk = find_peaks_valid[OF s1(2) b1 b2 b3, unfolded s1(5,6,7)]
  have "and_then (init_analysis wfs thr aw pw rp ns vs off) find_peaks
      = and_then (and_then (init_analysis wfs thr aw pw rp ns vs off) find_pedestals) find_peaks"
    by (cases "init_analysis wfs thr aw pw rp ns vs off")
       (simp_all add: find_peaks_after_pedestals init_analysis_fresh)
  also have "\<dots> = find_peaks s1" by (simp add: s1(1))
  finally have eq: "and_then (init_analysis wfs thr aw pw rp ns vs off) find_peaks = find_peaks s1" .
  show ?thesis
  proof (rule that)
    show "and_then (init_analysis wfs thr aw pw rp ns vs off) find_peaks = Inr
      (s1\<lparr>peak_locations := Some (map (\<lambda>row. first_max (window_of bins row)) amps),
          peak_times := Some (map (\<lambda>row. real (fst aw) + (real (first_max (window_of bins row)) + 1 / 2) * real ns) amps),
          peak_voltages := Some (map (\<lambda>row. window_of bins row ! first_max (window_of bins row)) amps)\<rparr>)"
      unfolding eq by (rule pk)
  qed (simp_all add: s1)
qed

subsection \<open>One turn of the timing loop\<close>

lemma take2_drop:
  assumes "Suc n < length xs"
  shows "take 2 (drop n xs) = [xs ! n, xs ! Suc n]"
proof -
  have "drop n xs = xs ! n # drop (Suc n) xs"
    using assms by (simp add: Cons_nth_drop_Suc)
  moreover have "drop (Suc n) xs = xs ! Suc n # drop (Suc (Suc n)) xs"
    using assms by (simp add: Cons_nth_drop_Suc)
  ultimately show ?thesis by (simp add: numeral_2_eq_2)
qed

lemma scan_offset_less:
  assumes "0 < loc" "loc < length amp"
  shows "scan_offset thr loc amp < loc"
proof -
  have "map (\<lambda>a. a < thr) (rev (take loc amp)) \<noteq> []" using assms by auto
  from first_max_spec(1)[OF this] show ?thesis using assms by (simp add: scan_offset_def)
qed

lemma signal_time_entry_pos:
  assumes "loc0 \<noteq> 0" "analysis_bins s = b0 # bs" "loc0 + b0 < length amp"
  shows "signal_time_entry s peak loc0 amp =
     np_interp (peak_rise_time_fraction * peak)
       [amp ! (loc0 + b0 - scan_offset (peak_rise_time_fraction * peak) (loc0 + b0) amp - 1),
        amp ! (loc0 + b0 - scan_offset (peak_rise_time_fraction * peak) (loc0 + b0) amp)]
       (real (fst (analysis_window s))
          + (real (loc0 + b0 - scan_offset (peak_rise_time_fraction * peak) (loc0 + b0) amp) - 1),
        real (fst (analysis_window s))
          + real (loc0 + b0 - scan_offset (peak_rise_time_fraction * peak) (loc0 + b0) amp))"
proof -
  let ?loc = "loc0 + b0"
  let ?thr = "peak_rise_time_fraction * peak"
  let ?k = "scan_offset ?thr ?loc amp"
  have pos: "0 < ?loc" using assms(1) by simp
  have k: "?k < ?loc" by (rule scan_offset_less[OF pos assms(3)])
  have ne: "map (\<lambda>a. a < ?thr) (rev (take ?loc amp)) \<noteq> []" using pos assms(3) by auto
  have am: "np_argmax (map (\<lambda>a. a < ?thr) (rev (take ?loc amp))) = Inr ?k"
    unfolding scan_offset_def by (rule np_argmax_first_max[OF ne])
  have "Suc (?loc - ?k - 1) < length amp" using k assms(3) by simp
  from take2_drop[OF this]
  have "take 2 (drop (?loc - ?k - 1) amp) = [amp ! (?loc - ?k - 1), amp ! Suc (?loc - ?k - 1)]" .
  moreover have "Suc (?loc - ?k - 1) = ?loc - ?k" using k by simp
  ultimately
  have sl: "take 2 (drop (?loc - ?k - 1) amp) = [amp ! (?loc - ?k - 1), amp ! (?loc - ?k)]"
    by simp
  show ?thesis
    unfolding signal_time_entry_def Let_def
    using assms(1,2) sl by (simp add: am)
qed

lemma np_interp_two: "\<exists>t. np_interp x [a, b] fp = Inr t"
  by (cases fp) (simp add: np_interp_def)

lemma signal_time_entry_total:
  assumes "analysis_bins s = b0 # bs" "loc0 + b0 < length amp"
  shows "\<exists>t. signal_time_entry s peak loc0 amp = Inr t"
proof (cases "loc0 = 0")
  case True
  then show ?thesis by (simp add: signal_time_entry_def)
next
  case False
  show ?thesis
    unfolding signal_time_entry_pos[OF False assms] by (rule np_interp_two)
qed

lemma calculate_signal_times_rows:
  assumes pl: "peak_locations s = Some locs" and pv: "peak_voltages s = Some pvs"
    and am: "amplitudes s = Some amps"
    and len: "length locs = length amps" "length pvs = length amps"
    and ok: "\<And>w. w < length amps \<Longrightarrow>
               signal_time_entry s (pvs ! w) (locs ! w) (amps ! w) = Inr (t w)"
  shows "calculate_signal_times s =
     Inr (s\<lparr> signal_times :=
              Some (map (\<lambda>w. t w * real (ns_per_sample s) + time_offset s) [0..<length amps]) \<rparr>)"
proof -
  have "map (\<lambda>(peak, loc, amp). signal_time_entry s peak loc amp) (zip pvs (zip locs amps))
      = map (\<lambda>w. Inr (t w)) [0..<length amps]"
    using len ok by (intro nth_equalityI) simp_all
  then have "sequence (map (\<lambda>(peak, loc, amp). signal_time_entry s peak loc amp)
                (zip pvs (zip locs amps))) = Inr (map t [0..<length amps])"
    by (simp add: sequence_map_Inr)
  then show ?thesis
    unfolding calculate_signal_times_def
    using pl pv am by (simp add: attr_def o_def)
qed

lemma window_of_upt_nth:
  assumes "k < b1 - b0"
  shows "window_of [b0..<b1] row ! k = row ! (b0 + k)"
  using assms by (simp add: window_of_def)

lemma length_window_of [simp]: "length (window_of bins row) = length bins"
  by (simp add: window_of_def)

subsection \<open>The backward scan and the interpolation\<close>

lemma first_max_bool_eq:
  assumes "r < length bs" "bs ! r" "\<forall>k<r. \<not> bs ! k"
  shows "first_max bs = r"
proof (rule first_max_unique[OF assms(1)])
  show "\<forall>k<length bs. bs ! k \<le> bs ! r" using assms(2) by (simp add: le_bool_def)
  show "\<forall>k<r. bs ! k < bs ! r" using assms(2,3) by (simp add: less_bool_def)
qed

lemma scan_list_length:
  assumes "loc \<le> length amp"
  shows "length (map (\<lambda>a. a < thr) (rev (take loc amp))) = loc"
  using assms by simp

lemma scan_list_nth:
  assumes "k < loc" "loc \<le> length amp"
  shows "map (\<lambda>a. a < thr) (rev (take loc amp)) ! k \<longleftrightarrow> amp ! (loc - 1 - k) < thr"
proof -
  have len: "length (take loc amp) = loc" using assms(2) by simp
  have "rev (take loc amp) ! k = take loc amp ! (loc - Suc k)"
    using assms(1) len by (simp add: rev_nth)
  also have "\<dots> = amp ! (loc - Suc k)" using assms by simp
  finally have r: "rev (take loc amp) ! k = amp ! (loc - 1 - k)" by simp
  have "k < length (rev (take loc amp))" using assms(1) len by simp
  then have "map (\<lambda>a. a < thr) (rev (take loc amp)) ! k = (rev (take loc amp) ! k < thr)"
    by (rule nth_map)
  then show ?thesis unfolding r .
qed

lemma scan_offset_crossing:
  assumes "i < loc" "loc \<le> length amp" "amp ! i < thr"
    and "\<forall>j. i < j \<and> j < loc \<longrightarrow> \<not> amp ! j < thr"
  shows "scan_offset thr loc amp = loc - 1 - i"
  unfolding scan_offset_def
proof (rule first_max_bool_eq)
  show "loc - 1 - i < length (map (\<lambda>a. a < thr) (rev (take loc amp)))"
    unfolding scan_list_length[OF assms(2)] using assms(1) by simp
  have k: "loc - 1 - i < loc" using assms(1) by simp
  have "loc - 1 - (loc - 1 - i) = i" using assms(1) by simp
  then show "map (\<lambda>a. a < thr) (rev (take loc amp)) ! (loc - 1 - i)"
    using scan_list_nth[OF k assms(2), of thr] assms(3) by simp
  show "\<forall>k<loc - 1 - i. \<not> map (\<lambda>a. a < thr) (rev (take loc amp)) ! k"
  proof (intro allI impI)
    fix k assume k: "k < loc - 1 - i"
    then have k': "k < loc" by simp
    have "i < loc - 1 - k \<and> loc - 1 - k < loc" using k assms(1) by linarith
    then have "\<not> amp ! (loc - 1 - k) < thr" using assms(4) by blast
    then show "\<not> map (\<lambda>a. a < thr) (rev (take loc amp)) ! k"
      using scan_list_nth[OF k' assms(2), of thr] by simp
  qed
qed

lemma scan_offset_none:
  assumes "0 < loc" "loc \<le> length amp" "\<forall>j<loc. \<not> amp ! j < thr"
  shows "scan_offset thr loc amp = 0"
  unfolding scan_offset_def
proof (rule first_max_bool(2))
  show "map (\<lambda>a. a < thr) (rev (take loc amp)) \<noteq> []" using assms(1,2) by auto
  show "\<not> (\<exists>k<length (map (\<lambda>a. a < thr) (rev (take loc amp))).
            map (\<lambda>a. a < thr) (rev (take loc amp)) ! k)"
  proof
    assume "\<exists>k<length (map (\<lambda>a. a < thr) (rev (take loc amp))).
            map (\<lambda>a. a < thr) (rev (take loc amp)) ! k"
    then obtain k where k: "k < loc" "map (\<lambda>a. a < thr) (rev (take loc amp)) ! k"
      unfolding scan_list_length[OF assms(2)] by blast
    then have "amp ! (loc - 1 - k) < thr" using scan_list_nth[OF k(1) assms(2), of thr] by simp
    moreover have "loc - 1 - k < loc" using k(1) by simp
    ultimately show False using assms(3) by blast
  qed
qed

lemma np_interp_bracket:
  assumes "a < y" "y \<le> b"
  shows "np_interp y [a, b] (c + (real (Suc i) - 1), c + real (Suc i))
      = Inr (c + interpolated_crossing y a b i)"
proof (cases "b = y")
  case True
  then show ?thesis using assms by (simp add: np_interp_def interpolated_crossing_def)
next
  case False
  then have "y < b" using assms(2) by simp
  then show ?thesis using assms(1)
    by (simp add: np_interp_def interpolated_crossing_def)
qed

lemma np_interp_left:
  assumes "y \<le> a" "a < b"
  shows "np_interp y [a, b] (f0, f1) = Inr f0"
  using assms by (auto simp: np_interp_def)

lemma signal_time_entry_zero: "signal_time_entry s peak 0 amp = Inr 0"
  by (simp add: signal_time_entry_def)

lemma signal_time_entry_crossing:
  assumes "loc0 \<noteq> 0" "analysis_bins s = b0 # bs" "loc0 + b0 < length amp"
    and "peak_rise_time_fraction * peak \<le> amp ! (loc0 + b0)"
    and "i < loc0 + b0" "amp ! i < peak_rise_time_fraction * peak"
    and "\<forall>j. i < j \<and> j < loc0 + b0 \<longrightarrow> \<not> amp ! j < peak_rise_time_fraction * peak"
  shows "signal_time_entry s peak loc0 amp =
     Inr (real (fst (analysis_window s))
          + interpolated_crossing (peak_rise_time_fraction * peak) (amp ! i) (amp ! Suc i) i)"
proof -
  let ?loc = "loc0 + b0" and ?thr = "peak_rise_time_fraction * peak"
  have le: "?loc \<le> length amp" using assms(3) by simp
  have k: "scan_offset ?thr ?loc amp = ?loc - 1 - i"
    by (rule scan_offset_crossing[OF assms(5) le assms(6,7)])
  have i1: "?loc - (?loc - 1 - i) = Suc i" and i0: "?loc - (?loc - 1 - i) - 1 = i"
    using assms(5) by simp_all
  have b: "?thr \<le> amp ! Suc i"
  proof (cases "Suc i = ?loc")
    case True
    then show ?thesis using assms(4) by simp
  next
    case False
    then have "i < Suc i \<and> Suc i < ?loc" using assms(5) by simp
    then have "\<not> amp ! Suc i < ?thr" using assms(7) by blast
    then show ?thesis by simp
  qed
  show ?thesis
    unfolding signal_time_entry_pos[OF assms(1,2,3)] k i1 diff_Suc_1
    by (rule np_interp_bracket[OF assms(6) b])
qed

lemma signal_time_entry_no_crossing:
  assumes "loc0 \<noteq> 0" "analysis_bins s = b0 # bs" "loc0 + b0 < length amp"
    and "amp ! (loc0 + b0 - 1) < amp ! (loc0 + b0)"
    and "\<forall>j<loc0 + b0. \<not> amp ! j < peak_rise_time_fraction * peak"
  shows "signal_time_entry s peak loc0 amp =
     Inr (real (fst (analysis_window s)) + (real (loc0 + b0) - 1))"
proof -
  let ?loc = "loc0 + b0" and ?thr = "peak_rise_time_fraction * peak"
  have pos: "0 < ?loc" using assms(1) by simp
  have le: "?loc \<le> length amp" using assms(3) by simp
  have k: "scan_offset ?thr ?loc amp = 0"
    by (rule scan_offset_none[OF pos le assms(5)])
  have "?loc - 1 < ?loc" using pos by simp
  then have a: "?thr \<le> amp ! (?loc - 1)" using assms(5) by (simp add: not_less)
  show ?thesis
    unfolding signal_time_entry_pos[OF assms(1,2,3)] k
    using np_interp_left[OF a assms(4)] by simp
qed

subsection \<open>The timing stage on a valid input\<close>

lemma signal_time_entry_update [simp]:
  "signal_time_entry (s\<lparr>signal_times := x\<rparr>) = signal_time_entry s"
  by (intro ext) (simp add: signal_time_entry_def Let_def split: list.split)

lemma calculate_signal_times_fresh:
  "and_then (init_analysis wfs thr aw pw rp ns vs off) calculate_signal_times
     = and_then (and_then (init_analysis wfs thr aw pw rp ns vs off) find_peaks)
         calculate_signal_times"
  by (cases "init_analysis wfs thr aw pw rp ns vs off")
     (simp_all add: calculate_signal_times_after_peaks init_analysis_fresh)

lemma signal_times_from_fresh:
  fixes rp :: bool and vs :: real
  assumes "valid_input wfs aw pw ns"
  defines "amps \<equiv> map (corrected_row rp vs [fst pw div ns..<snd pw div ns]) wfs"
  defines "bins \<equiv> [fst aw div ns..<snd aw div ns]"
  defines "locs \<equiv> map (\<lambda>row. first_max (window_of bins row)) amps"
  defines "volts \<equiv> map (\<lambda>row. window_of bins row ! first_max (window_of bins row)) amps"
  obtains s ts where
    "and_then (init_analysis wfs thr aw pw rp ns vs off) calculate_signal_times = Inr s"
    "amplitudes s = Some amps" "peak_locations s = Some locs" "peak_voltages s = Some volts"
    "signal_times s = Some ts" "length ts = length wfs"
    "analysis_bins s = bins" "analysis_window s = aw"
    "\<forall>w t. w < length wfs \<longrightarrow> signal_time_entry s (volts ! w) (locs ! w) (amps ! w) = Inr t
        \<longrightarrow> ts ! w = t * real ns + off"
proof -
  note v = valid_inputD[OF assms(1)]
  obtain s1 where s1:
    "and_then (init_analysis wfs thr aw pw rp ns vs off) find_peaks = Inr s1"
    "amplitudes s1 = Some amps" "peak_locations s1 = Some locs" "peak_voltages s1 = Some volts"
    "analysis_bins s1 = bins" "analysis_window s1 = aw" "ns_per_sample s1 = ns"
    "time_offset s1 = off"
    unfolding amps_def bins_def locs_def volts_def
    using peaks_from_fresh[OF assms(1), of thr rp vs off] by blast
  have n: "length amps = length wfs" "length locs = length amps" "length volts = length amps"
    by (simp_all add: amps_def locs_def volts_def)
  have bins: "bins = fst aw div ns # [Suc (fst aw div ns)..<snd aw div ns]"
    unfolding bins_def using v(4) by (rule upt_conv_Cons)
  define t where "t w = projr (signal_time_entry s1 (volts ! w) (locs ! w) (amps ! w))" for w
  have ok: "signal_time_entry s1 (volts ! w) (locs ! w) (amps ! w) = Inr (t w)"
    if w: "w < length amps" for w
  proof -
    let ?row = "amps ! w"
    have "?row = corrected_row rp vs [fst pw div ns..<snd pw div ns] (wfs ! w)"
      using w n(1) by (simp add: amps_def)
    moreover have "length (wfs ! w) = length (hd wfs)"
      using v(2) w n(1) by (metis nth_mem)
    ultimately have len: "length ?row = length (hd wfs)" by simp
    have ne: "window_of bins ?row \<noteq> []" using v(4) by (simp add: window_of_def bins_def)
    have "locs ! w = first_max (window_of bins ?row)" using w by (simp add: locs_def)
    then have "locs ! w < snd aw div ns - fst aw div ns"
      using first_max_spec(1)[OF ne] by (simp add: bins_def)
    then have "locs ! w + fst aw div ns < length ?row" using v(5) len by linarith
    from signal_time_entry_total[of s1, OF _ this, of "[Suc (fst aw div ns)..<snd aw div ns]" "volts ! w"]
    obtain x where "signal_time_entry s1 (volts ! w) (locs ! w) ?row = Inr x"
      using s1(5) bins by auto
    then show ?thesis by (simp add: t_def)
  qed
  have run: "calculate_signal_times s1 =
     Inr (s1\<lparr> signal_times :=
              Some (map (\<lambda>w. t w * real (ns_per_sample s1) + time_offset s1) [0..<length amps]) \<rparr>)"
    by (rule calculate_signal_times_rows[OF s1(3,4,2) n(2,3) ok])
  let ?ts = "map (\<lambda>w. t w * real ns + off) [0..<length amps]"
  let ?s = "s1\<lparr> signal_times := Some ?ts \<rparr>"
  have eq: "and_then (init_analysis wfs thr aw pw rp ns vs off) calculate_signal_times = Inr ?s"
    unfolding calculate_signal_times_fresh s1(1) and_then_Inr run s1(7,8) ..
  show ?thesis
  proof (rule that[of ?s ?ts])
    show "and_then (init_analysis wfs thr aw pw rp ns vs off) calculate_signal_times = Inr ?s"
      by (rule eq)
    show "\<forall>w t'. w < length wfs \<longrightarrow> signal_time_entry ?s (volts ! w) (locs ! w) (amps ! w) = Inr t'
        \<longrightarrow> ?ts ! w = t' * real ns + off"
      using ok n(1) by simp
  qed (simp_all add: s1 n)
qed

lemma interpolated_crossing_on_line:
  assumes "a \<noteq> b"
  shows "a + (b - a) * (interpolated_crossing y a b i - real i) = y"
  using assms by (simp add: interpolated_crossing_def)

text \<open>What the timing stage leaves for waveform \<open>w\<close>, in the three cases of the loop.\<close>

lemma timing_rows:
  fixes rp :: bool and vs :: real
  assumes "valid_input wfs aw pw ns" and "w < length wfs"
  shows "\<exists>s amps locs volts ts.
      and_then (init_analysis wfs thr aw pw rp ns vs off) calculate_signal_times = Inr s
    \<and> amplitudes s = Some amps \<and> peak_locations s = Some locs
    \<and> peak_voltages s = Some volts \<and> signal_times s = Some ts
    \<and> (locs ! w = 0 \<longrightarrow>
          signal_time_entry s (volts ! w) (locs ! w) (amps ! w) = Inr 0 \<and> ts ! w = off)
    \<and> (\<forall>i. locs ! w \<noteq> 0 \<and> 0 \<le> volts ! w \<and> i < locs ! w + fst aw div ns
          \<and> amps ! w ! i < peak_rise_time_fraction * volts ! w
          \<and> (\<forall>j. i < j \<and> j < locs ! w + fst aw div ns
                 \<longrightarrow> \<not> amps ! w ! j < peak_rise_time_fraction * volts ! w)
          \<longrightarrow> ts ! w = (real (fst aw) + interpolated_crossing (peak_rise_time_fraction * volts ! w)
                               (amps ! w ! i) (amps ! w ! Suc i) i) * real ns + off)
    \<and> (locs ! w \<noteq> 0
          \<and> (\<forall>j<locs ! w + fst aw div ns. \<not> amps ! w ! j < peak_rise_time_fraction * volts ! w)
          \<longrightarrow> ts ! w = (real (fst aw) + (real (locs ! w + fst aw div ns) - 1)) * real ns + off)"
proof -
  let ?b0 = "fst aw div ns" and ?b1 = "snd aw div ns"
  let ?bins = "[?b0..<?b1]"
  let ?amps = "map (corrected_row rp vs [fst pw div ns..<snd pw div ns]) wfs"
  let ?locs = "map (\<lambda>row. first_max (window_of ?bins row)) ?amps"
  let ?volts = "map (\<lambda>row. window_of ?bins row ! first_max (window_of ?bins row)) ?amps"
  note v = valid_inputD[OF assms(1)]
  obtain s ts where s:
    "and_then (init_analysis wfs thr aw pw rp ns vs off) calculate_signal_times = Inr s"
    "amplitudes s = Some ?amps" "peak_locations s = Some ?locs" "peak_voltages s = Some ?volts"
    "signal_times s = Some ts" "length ts = length wfs"
    "analysis_bins s = ?bins" "analysis_window s = aw"
    and ts': "\<forall>w t. w < length wfs \<longrightarrow>
        signal_time_entry s (?volts ! w) (?locs ! w) (?amps ! w) = Inr t
        \<longrightarrow> ts ! w = t * real ns + off"
    by (rule signal_times_from_fresh[OF assms(1), of thr rp vs off])
  have ts: "ts ! w = t * real ns + off"
    if "w < length wfs" "signal_time_entry s (?volts ! w) (?locs ! w) (?amps ! w) = Inr t" for w t
    using ts' that by blast
  let ?row = "?amps ! w"
  let ?win = "window_of ?bins ?row"
  let ?l = "?locs ! w"
  let ?thr = "peak_rise_time_fraction * ?volts ! w"
  have wl: "w < length ?amps" using assms(2) by simp
  have lw: "?l = first_max ?win" using wl by simp
  have ne: "?win \<noteq> []" using v(4) by (simp add: window_of_def)
  note fm = first_max_spec[OF ne]
  have l_lt: "?l < ?b1 - ?b0" unfolding lw using fm(1) by simp
  have "?row = corrected_row rp vs [fst pw div ns..<snd pw div ns] (wfs ! w)"
    using assms(2) by simp
  moreover have "length (wfs ! w) = length (hd wfs)" using v(2) assms(2) by (metis nth_mem)
  ultimately have len: "length ?row = length (hd wfs)" by simp
  have inr: "?l + ?b0 < length ?row" using l_lt v(5) len by linarith
  have at: "?win ! ?l = ?row ! (?b0 + ?l)" by (rule window_of_upt_nth[OF l_lt])
  have vw: "?volts ! w = ?row ! (?l + ?b0)"
    using wl at lw by (simp add: add.commute)
  have bins: "analysis_bins s = ?b0 # [Suc ?b0..<?b1]"
    unfolding s(7) using v(4) by (rule upt_conv_Cons)
  have c0: "?l = 0 \<longrightarrow>
          signal_time_entry s (?volts ! w) ?l ?row = Inr 0 \<and> ts ! w = off"
  proof
    assume z: "?l = 0"
    have e0: "signal_time_entry s (?volts ! w) ?l ?row = Inr 0"
      unfolding z by (rule signal_time_entry_zero)
    moreover have "ts ! w = off" using ts[OF assms(2) e0] by simp
    ultimately show "signal_time_entry s (?volts ! w) ?l ?row = Inr 0 \<and> ts ! w = off" ..
  qed
  have c1: "\<forall>i. ?l \<noteq> 0 \<and> 0 \<le> ?volts ! w \<and> i < ?l + ?b0 \<and> ?row ! i < ?thr
          \<and> (\<forall>j. i < j \<and> j < ?l + ?b0 \<longrightarrow> \<not> ?row ! j < ?thr)
          \<longrightarrow> ts ! w = (real (fst aw) + interpolated_crossing ?thr (?row ! i) (?row ! Suc i) i)
                         * real ns + off"
  proof (intro allI impI, elim conjE)
    fix i
    assume h: "?l \<noteq> 0" "0 \<le> ?volts ! w" "i < ?l + ?b0" "?row ! i < ?thr"
      "\<forall>j. i < j \<and> j < ?l + ?b0 \<longrightarrow> \<not> ?row ! j < ?thr"
    have "?thr \<le> ?volts ! w" using h(2) by (simp add: peak_rise_time_fraction_def)
    then have top: "?thr \<le> ?row ! (?l + ?b0)" unfolding vw .
    have "signal_time_entry s (?volts ! w) ?l ?row =
       Inr (real (fst (analysis_window s))
            + interpolated_crossing ?thr (?row ! i) (?row ! Suc i) i)"
      by (rule signal_time_entry_crossing[OF h(1) bins inr top h(3,4,5)])
    from ts[OF assms(2) this]
    show "ts ! w = (real (fst aw) + interpolated_crossing ?thr (?row ! i) (?row ! Suc i) i)
                     * real ns + off"
      unfolding s(8) .
  qed
  have c2: "?l \<noteq> 0 \<and> (\<forall>j<?l + ?b0. \<not> ?row ! j < ?thr)
          \<longrightarrow> ts ! w = (real (fst aw) + (real (?l + ?b0) - 1)) * real ns + off"
  proof (intro impI, elim conjE)
    assume h: "?l \<noteq> 0" "\<forall>j<?l + ?b0. \<not> ?row ! j < ?thr"
    have "?l - 1 < ?l" using h(1) by simp
    then have "?win ! (?l - 1) < ?win ! ?l" using fm(3) lw by simp
    moreover have "?win ! (?l - 1) = ?row ! (?b0 + (?l - 1))"
      by (rule window_of_upt_nth) (use l_lt in simp)
    moreover have "?b0 + (?l - 1) = ?l + ?b0 - 1" using h(1) by simp
    ultimately have rise: "?row ! (?l + ?b0 - 1) < ?row ! (?l + ?b0)"
      using at by (simp add: add.commute)
    have "signal_time_entry s (?volts ! w) ?l ?row =
       Inr (real (fst (analysis_window s)) + (real (?l + ?b0) - 1))"
      by (rule signal_time_entry_no_crossing[OF h(1) bins inr rise h(2)])
    from ts[OF assms(2) this]
    show "ts ! w = (real (fst aw) + (real (?l + ?b0) - 1)) * real ns + off"
      unfolding s(8) .
  qed
  show ?thesis
    by (intro exI conjI) (rule s(1) s(2) s(3) s(4) s(5) c0 c1 c2)+
qed

subsection \<open>The mask of the charge stage\<close>

lemma length_cumsum_from [simp]: "length (cumsum_from acc xs) = length xs"
  by (induction xs arbitrary: acc) simp_all

lemma cumsum_from_nth:
  "j < length xs \<Longrightarrow> cumsum_from acc xs ! j = acc + sum_list (take (Suc j) xs)"
proof (induction xs arbitrary: acc j)
  case Nil
  then show ?case by simp
next
  case (Cons x xs)
  show ?case
  proof (cases j)
    case 0
    then show ?thesis by simp
  next
    case (Suc i)
    with Cons.prems have "i < length xs" by simp
    from Cons.IH[OF this, of "acc + x"] Suc show ?thesis by simp
  qed
qed

lemma np_cumsum_zero_iff:
  assumes "j < length xs"
  shows "np_cumsum xs ! j = 0 \<longleftrightarrow> (\<forall>k\<le>j. xs ! k = 0)"
proof -
  have "np_cumsum xs ! j = sum_list (take (Suc j) xs)"
    using assms by (simp add: np_cumsum_def cumsum_from_nth)
  also have "\<dots> = 0 \<longleftrightarrow> (\<forall>x\<in>set (take (Suc j) xs). x = 0)" by simp
  also have "\<dots> \<longleftrightarrow> (\<forall>k\<le>j. xs ! k = 0)"
  proof
    assume a: "\<forall>x\<in>set (take (Suc j) xs). x = 0"
    show "\<forall>k\<le>j. xs ! k = 0"
    proof (intro allI impI)
      fix k assume "k \<le> j"
      then have "k < length (take (Suc j) xs)" using assms by simp
      then have "take (Suc j) xs ! k \<in> set (take (Suc j) xs)" by (rule nth_mem)
      moreover have "take (Suc j) xs ! k = xs ! k" using \<open>k \<le> j\<close> by simp
      ultimately show "xs ! k = 0" using a by simp
    qed
  next
    assume a: "\<forall>k\<le>j. xs ! k = 0"
    show "\<forall>x\<in>set (take (Suc j) xs). x = 0"
    proof
      fix x assume "x \<in> set (take (Suc j) xs)"
      then obtain k where k: "k < length (take (Suc j) xs)" "take (Suc j) xs ! k = x"
        by (auto simp: in_set_conv_nth)
      then have "k \<le> j" by simp
      then show "x = 0" using a k by simp
    qed
  qed
  finally show ?thesis .
qed

lemma rev_cumsum_rev_zero_iff:
  assumes "j < length xs"
  shows "rev (np_cumsum (rev xs)) ! j = 0 \<longleftrightarrow> (\<forall>k. j \<le> k \<and> k < length xs \<longrightarrow> xs ! k = 0)"
proof -
  let ?n = "length xs"
  have len: "length (np_cumsum (rev xs)) = ?n" by (simp add: np_cumsum_def)
  have j': "?n - Suc j < length (rev xs)" using assms by simp
  have "rev (np_cumsum (rev xs)) ! j = np_cumsum (rev xs) ! (?n - Suc j)"
    using assms len by (simp add: rev_nth)
  also have "\<dots> = 0 \<longleftrightarrow> (\<forall>k\<le>?n - Suc j. rev xs ! k = 0)"
    by (rule np_cumsum_zero_iff[OF j'])
  also have "\<dots> \<longleftrightarrow> (\<forall>k. j \<le> k \<and> k < ?n \<longrightarrow> xs ! k = 0)"
  proof
    assume a: "\<forall>k\<le>?n - Suc j. rev xs ! k = 0"
    show "\<forall>k. j \<le> k \<and> k < ?n \<longrightarrow> xs ! k = 0"
    proof (intro allI impI)
      fix k assume k: "j \<le> k \<and> k < ?n"
      then have "?n - Suc k \<le> ?n - Suc j" by (intro diff_le_mono2) simp
      then have "rev xs ! (?n - Suc k) = 0" using a by blast
      moreover have "?n - Suc k < ?n" using k by linarith
      then have "rev xs ! (?n - Suc k) = xs ! (?n - Suc (?n - Suc k))"
        by (rule rev_nth)
      moreover have "?n - Suc (?n - Suc k) = k" using k by simp
      ultimately show "xs ! k = 0" by simp
    qed
  next
    assume a: "\<forall>k. j \<le> k \<and> k < ?n \<longrightarrow> xs ! k = 0"
    show "\<forall>k\<le>?n - Suc j. rev xs ! k = 0"
    proof (intro allI impI)
      fix k assume k: "k \<le> ?n - Suc j"
      then have kn: "k < ?n" using assms by arith
      have "rev xs ! k = xs ! (?n - Suc k)" using kn by (rule rev_nth)
      moreover have "j \<le> ?n - Suc k \<and> ?n - Suc k < ?n" using k assms by arith
      ultimately show "rev xs ! k = 0" using a by simp
    qed
  qed
  finally show ?thesis .
qed

lemma length_charge_mask [simp]: "length (charge_mask amp sigma p) = length amp"
  by (simp add: charge_mask_def before_peak_fall_def after_peak_rise_def np_cumsum_def
        below_threshold_def)

lemma before_peak_fall_nth:
  assumes "j < length amp"
  shows "before_peak_fall amp sigma p ! j \<longleftrightarrow> (\<forall>k\<le>j. \<not> (p < k \<and> amp ! k < 3 * sigma))"
proof -
  let ?fl = "map2 (\<lambda>j b. of_bool (p < j \<and> b) :: nat) [0..<length amp] (below_threshold amp sigma)"
  have len: "length ?fl = length amp" by (simp add: below_threshold_def)
  have nth: "?fl ! k = of_bool (p < k \<and> amp ! k < 3 * sigma)" if "k < length amp" for k
    using that by (simp add: below_threshold_def)
  have "before_peak_fall amp sigma p ! j \<longleftrightarrow> np_cumsum ?fl ! j = 0"
    using assms by (simp add: before_peak_fall_def np_cumsum_def below_threshold_def)
  also have "\<dots> \<longleftrightarrow> (\<forall>k\<le>j. ?fl ! k = 0)"
    by (rule np_cumsum_zero_iff) (use assms len in simp)
  also have "\<dots> \<longleftrightarrow> (\<forall>k\<le>j. \<not> (p < k \<and> amp ! k < 3 * sigma))"
    using assms by (intro all_cong1 imp_cong refl) (simp add: nth)
  finally show ?thesis .
qed

lemma after_peak_rise_nth:
  assumes "j < length amp"
  shows "after_peak_rise amp sigma p ! j \<longleftrightarrow>
     (\<forall>k. j \<le> k \<and> k < length amp \<longrightarrow> \<not> (k < p \<and> amp ! k < 3 * sigma))"
proof -
  let ?fl = "map2 (\<lambda>j b. of_bool (j < p \<and> b) :: nat) [0..<length amp] (below_threshold amp sigma)"
  have len: "length ?fl = length amp" by (simp add: below_threshold_def)
  have nth: "?fl ! k = of_bool (k < p \<and> amp ! k < 3 * sigma)" if "k < length amp" for k
    using that by (simp add: below_threshold_def)
  have "after_peak_rise amp sigma p ! j \<longleftrightarrow> rev (np_cumsum (rev ?fl)) ! j = 0"
    using assms by (simp add: after_peak_rise_def np_cumsum_def below_threshold_def)
  also have "\<dots> \<longleftrightarrow> (\<forall>k. j \<le> k \<and> k < length ?fl \<longrightarrow> ?fl ! k = 0)"
    by (rule rev_cumsum_rev_zero_iff) (use assms len in simp)
  also have "\<dots> \<longleftrightarrow> (\<forall>k. j \<le> k \<and> k < length amp \<longrightarrow> \<not> (k < p \<and> amp ! k < 3 * sigma))"
    unfolding len by (intro all_cong1 imp_cong refl) (simp add: nth)
  finally show ?thesis .
qed

lemma charge_mask_nth:
  assumes "j < length amp"
  shows "charge_mask amp sigma p ! j \<longleftrightarrow>
     (\<forall>k. p < k \<and> k \<le> j \<longrightarrow> \<not> amp ! k < 3 * sigma)
     \<and> (\<forall>k. j \<le> k \<and> k < p \<and> k < length amp \<longrightarrow> \<not> amp ! k < 3 * sigma)"
proof -
  have l1: "length (before_peak_fall amp sigma p) = length amp"
    by (simp add: before_peak_fall_def np_cumsum_def below_threshold_def)
  have l2: "length (after_peak_rise amp sigma p) = length amp"
    by (simp add: after_peak_rise_def np_cumsum_def below_threshold_def)
  have "charge_mask amp sigma p ! j \<longleftrightarrow>
      before_peak_fall amp sigma p ! j \<and> after_peak_rise amp sigma p ! j"
    using assms l1 l2 by (simp add: charge_mask_def)
  then show ?thesis
    unfolding before_peak_fall_nth[OF assms] after_peak_rise_nth[OF assms] by blast
qed

lemma masked_sum_as_sum:
  "masked_sum amp sigma p = (\<Sum>j | j < length amp \<and> charge_mask amp sigma p ! j. amp ! j)"
proof -
  let ?m = "charge_mask amp sigma p"
  let ?xs = "map2 (\<lambda>a m. a * of_bool m) amp ?m"
  have len: "length ?xs = length amp" by simp
  have "masked_sum amp sigma p = (\<Sum>j = 0..<length ?xs. ?xs ! j)"
    unfolding masked_sum_def by (rule sum_list_sum_nth)
  also have "\<dots> = (\<Sum>j = 0..<length amp. amp ! j * of_bool (?m ! j))"
    unfolding len by (rule sum.cong) simp_all
  also have "\<dots> = (\<Sum>j \<in> {0..<length amp}. if ?m ! j then amp ! j else 0)"
    by (rule sum.cong) simp_all
  also have "\<dots> = (\<Sum>j \<in> {j \<in> {0..<length amp}. ?m ! j}. amp ! j)"
    by (rule sum.inter_filter[symmetric]) simp
  also have "{j \<in> {0..<length amp}. ?m ! j} = {j. j < length amp \<and> ?m ! j}" by auto
  finally show ?thesis .
qed

subsection \<open>The charge stage on a valid input\<close>

lemma integrate_charges_rows:
  assumes "peak_locations s = Some locs" "amplitudes s = Some amps"
    and "pedestal_sigmas s = Some sigmas" "analysis_bins s = b0 # bs"
    and "length sigmas = length amps" "length locs = length amps"
  shows "\<exists>qs. integrate_charges s = Inr (s\<lparr>integrated_charges := Some qs\<rparr>)
      \<and> length qs = length amps
      \<and> (\<forall>w<length amps. qs ! w = masked_sum (amps ! w) (sigmas ! w) (locs ! w + b0)
                                      * (real (ns_per_sample s) / real impedance))"
proof -
  let ?qs = "map (\<lambda>(amp, sigma, loc). masked_sum amp sigma (loc + b0)
                                  * (real (ns_per_sample s) / real impedance))
                 (zip amps (zip sigmas locs))"
  have run: "integrate_charges s = Inr (s\<lparr>integrated_charges := Some ?qs\<rparr>)"
    unfolding integrate_charges_def using assms(1-4) by (simp add: attr_def)
  have len: "length ?qs = length amps" using assms(5,6) by simp
  have nth: "\<forall>w<length amps. ?qs ! w = masked_sum (amps ! w) (sigmas ! w) (locs ! w + b0)
                                      * (real (ns_per_sample s) / real impedance)"
    using assms(5,6) by simp
  show ?thesis
    by (intro exI conjI) (rule run len nth)+
qed

lemma integrate_charges_fresh:
  "and_then (init_analysis wfs thr aw pw rp ns vs off) integrate_charges
     = and_then (and_then (init_analysis wfs thr aw pw rp ns vs off) find_peaks)
         integrate_charges"
  by (cases "init_analysis wfs thr aw pw rp ns vs off")
     (simp_all add: integrate_charges_after_peaks init_analysis_fresh)

text \<open>What the charge stage leaves for waveform \<open>w\<close>.\<close>

lemma charge_rows:
  fixes rp :: bool and vs :: real
  assumes "valid_input wfs aw pw ns" and "w < length wfs"
  shows "\<exists>s amps sigmas locs volts qs.
      and_then (init_analysis wfs thr aw pw rp ns vs off) integrate_charges = Inr s
    \<and> amplitudes s = Some amps \<and> pedestal_sigmas s = Some sigmas
    \<and> peak_locations s = Some locs \<and> peak_voltages s = Some volts
    \<and> integrated_charges s = Some qs
    \<and> fst aw div ns + locs ! w < length (amps ! w)
    \<and> volts ! w = amps ! w ! (fst aw div ns + locs ! w)
    \<and> amps ! w = corrected_row rp vs [fst pw div ns..<snd pw div ns] (wfs ! w)
    \<and> sigmas ! w = np_std (quiet_samples vs [fst pw div ns..<snd pw div ns] (wfs ! w))
    \<and> locs ! w = first_max (window_of [fst aw div ns..<snd aw div ns] (amps ! w))
    \<and> qs ! w = masked_sum (amps ! w) (sigmas ! w) (fst aw div ns + locs ! w)
                  * (real ns / real impedance)
    \<and> length amps = length wfs \<and> length sigmas = length wfs
    \<and> length locs = length wfs \<and> length qs = length wfs"
proof -
  let ?b0 = "fst aw div ns" and ?b1 = "snd aw div ns"
  let ?bins = "[?b0..<?b1]"
  let ?pb = "[fst pw div ns..<snd pw div ns]"
  let ?amps = "map (corrected_row rp vs ?pb) wfs"
  let ?sigmas = "map (\<lambda>raw. np_std (quiet_samples vs ?pb raw)) wfs"
  let ?locs = "map (\<lambda>row. first_max (window_of ?bins row)) ?amps"
  let ?volts = "map (\<lambda>row. window_of ?bins row ! first_max (window_of ?bins row)) ?amps"
  note v = valid_inputD[OF assms(1)]
  obtain s1 where s1:
    "and_then (init_analysis wfs thr aw pw rp ns vs off) find_peaks = Inr s1"
    "amplitudes s1 = Some ?amps" "pedestal_sigmas s1 = Some ?sigmas"
    "peak_locations s1 = Some ?locs" "peak_voltages s1 = Some ?volts"
    "analysis_bins s1 = ?bins" "ns_per_sample s1 = ns"
    by (rule peaks_from_fresh[OF assms(1), of thr rp vs off])
  have bins: "analysis_bins s1 = ?b0 # [Suc ?b0..<?b1]"
    unfolding s1(6) using v(4) by (rule upt_conv_Cons)
  have n: "length ?sigmas = length ?amps" "length ?locs = length ?amps" by simp_all
  from integrate_charges_rows[OF s1(4,2,3) bins n]
  obtain qs where qs:
    "integrate_charges s1 = Inr (s1\<lparr>integrated_charges := Some qs\<rparr>)"
    "length qs = length ?amps"
    "\<forall>w<length ?amps. qs ! w = masked_sum (?amps ! w) (?sigmas ! w) (?locs ! w + ?b0)
                                      * (real (ns_per_sample s1) / real impedance)"
    by (elim exE conjE) (rule that)
  let ?s = "s1\<lparr>integrated_charges := Some qs\<rparr>"
  have run: "and_then (init_analysis wfs thr aw pw rp ns vs off) integrate_charges = Inr ?s"
    unfolding integrate_charges_fresh s1(1) and_then_Inr by (rule qs(1))
  let ?row = "?amps ! w"
  let ?win = "window_of ?bins ?row"
  have wl: "w < length ?amps" using assms(2) by simp
  have rw: "?row = corrected_row rp vs ?pb (wfs ! w)" using assms(2) by simp
  have sw: "?sigmas ! w = np_std (quiet_samples vs ?pb (wfs ! w))" using assms(2) by simp
  have lw: "?locs ! w = first_max ?win" using wl by simp
  have ne: "?win \<noteq> []" using v(4) by (simp add: window_of_def)
  have l_lt: "?locs ! w < ?b1 - ?b0" unfolding lw using first_max_spec(1)[OF ne] by simp
  have "length (wfs ! w) = length (hd wfs)" using v(2) assms(2) by (metis nth_mem)
  then have len: "length ?row = length (hd wfs)" unfolding rw by simp
  have inr: "?b0 + ?locs ! w < length ?row" using l_lt v(5) len by linarith
  have at: "?win ! (?locs ! w) = ?row ! (?b0 + ?locs ! w)" by (rule window_of_upt_nth[OF l_lt])
  have vw: "?volts ! w = ?row ! (?b0 + ?locs ! w)" using wl at lw by simp
  have qw: "qs ! w = masked_sum ?row (?sigmas ! w) (?b0 + ?locs ! w) * (real ns / real impedance)"
    using qs(3) wl unfolding s1(7) by (simp add: add.commute)
  have n1: "length ?amps = length wfs" and n2: "length ?sigmas = length wfs"
    and n3: "length ?locs = length wfs" and n4: "length qs = length wfs"
    using qs(2) by simp_all
  have f2: "amplitudes ?s = Some ?amps" and f3: "pedestal_sigmas ?s = Some ?sigmas"
    and f4: "peak_locations ?s = Some ?locs" and f5: "peak_voltages ?s = Some ?volts"
    and f6: "integrated_charges ?s = Some qs"
    using s1 by simp_all
  show ?thesis
    by (intro exI conjI) (rule run f2 f3 f4 f5 f6 inr vw rw sw lw qw n1 n2 n3 n4)+
qed

subsection \<open>The mask is the integration region of the design\<close>

lemma first_below_after_bound:
  assumes "j < length amp"
  shows "(\<forall>k. p < k \<and> k \<le> j \<longrightarrow> \<not> amp ! k < 3 * sigma) \<longleftrightarrow>
     j < (case first_below_after amp sigma p of None \<Rightarrow> length amp | Some k \<Rightarrow> k)"
proof (cases "first_below_after amp sigma p")
  case None
  then have "\<forall>k\<in>set [Suc p..<length amp]. \<not> amp ! k < 3 * sigma"
    unfolding first_below_after_def find_None_iff by blast
  then have "\<forall>k. p < k \<and> k \<le> j \<longrightarrow> \<not> amp ! k < 3 * sigma" using assms by simp
  then show ?thesis using None assms by simp
next
  case (Some k0)
  then obtain i where i: "i < length [Suc p..<length amp]"
    "amp ! ([Suc p..<length amp] ! i) < 3 * sigma" "k0 = [Suc p..<length amp] ! i"
    "\<forall>i'<i. \<not> amp ! ([Suc p..<length amp] ! i') < 3 * sigma"
    unfolding first_below_after_def find_Some_iff by blast
  have k0: "k0 = Suc p + i" "k0 < length amp" using i(1,3) by simp_all
  have below: "amp ! k0 < 3 * sigma" using i(2,3) by simp
  have clear: "\<not> amp ! k < 3 * sigma" if "p < k" "k < k0" for k
  proof -
    have "k - Suc p < i" using that k0(1) by linarith
    then have "\<not> amp ! ([Suc p..<length amp] ! (k - Suc p)) < 3 * sigma" using i(4) by blast
    moreover have "[Suc p..<length amp] ! (k - Suc p) = k"
      using that k0 by simp
    ultimately show ?thesis by simp
  qed
  have "(\<forall>k. p < k \<and> k \<le> j \<longrightarrow> \<not> amp ! k < 3 * sigma) \<longleftrightarrow> j < k0"
  proof
    assume a: "\<forall>k. p < k \<and> k \<le> j \<longrightarrow> \<not> amp ! k < 3 * sigma"
    show "j < k0"
    proof (rule ccontr)
      assume "\<not> j < k0"
      then have "p < k0 \<and> k0 \<le> j" using k0(1) by simp
      with a below show False by blast
    qed
  next
    assume "j < k0"
    then show "\<forall>k. p < k \<and> k \<le> j \<longrightarrow> \<not> amp ! k < 3 * sigma"
      using clear by simp
  qed
  then show ?thesis using Some by simp
qed

lemma first_below_before_bound:
  assumes "p < length amp"
  shows "(\<forall>k. j \<le> k \<and> k < p \<and> k < length amp \<longrightarrow> \<not> amp ! k < 3 * sigma) \<longleftrightarrow>
     (case first_below_before amp sigma p of None \<Rightarrow> 0 | Some k \<Rightarrow> Suc k) \<le> j"
proof (cases "first_below_before amp sigma p")
  case None
  then have "\<forall>k\<in>set (rev [0..<p]). \<not> amp ! k < 3 * sigma"
    unfolding first_below_before_def find_None_iff by blast
  then have "\<forall>k. j \<le> k \<and> k < p \<and> k < length amp \<longrightarrow> \<not> amp ! k < 3 * sigma" by simp
  then show ?thesis using None by simp
next
  case (Some k0)
  then obtain i where i: "i < length (rev [0..<p])"
    "amp ! (rev [0..<p] ! i) < 3 * sigma" "k0 = rev [0..<p] ! i"
    "\<forall>i'<i. \<not> amp ! (rev [0..<p] ! i') < 3 * sigma"
    unfolding first_below_before_def find_Some_iff by blast
  have ip: "i < p" using i(1) by simp
  have nth: "rev [0..<p] ! m = p - Suc m" if "m < p" for m
    using that by (simp add: rev_nth)
  have k0: "k0 = p - Suc i" "k0 < p" using i(3) ip by (simp_all add: nth)
  have below: "amp ! k0 < 3 * sigma" using i(2,3) by simp
  have clear: "\<not> amp ! k < 3 * sigma" if "k0 < k" "k < p" for k
  proof -
    have m: "p - Suc k < i" using that k0(1) ip by linarith
    then have "\<not> amp ! (rev [0..<p] ! (p - Suc k)) < 3 * sigma" using i(4) by blast
    moreover have "p - Suc k < p" using that by linarith
    then have "rev [0..<p] ! (p - Suc k) = p - Suc (p - Suc k)" by (rule nth)
    moreover have "p - Suc (p - Suc k) = k" using that by linarith
    ultimately show ?thesis by simp
  qed
  have "(\<forall>k. j \<le> k \<and> k < p \<and> k < length amp \<longrightarrow> \<not> amp ! k < 3 * sigma) \<longleftrightarrow> Suc k0 \<le> j"
  proof
    assume a: "\<forall>k. j \<le> k \<and> k < p \<and> k < length amp \<longrightarrow> \<not> amp ! k < 3 * sigma"
    show "Suc k0 \<le> j"
    proof (rule ccontr)
      assume "\<not> Suc k0 \<le> j"
      then have "j \<le> k0 \<and> k0 < p \<and> k0 < length amp" using k0(2) assms by simp
      with a below show False by blast
    qed
  next
    assume "Suc k0 \<le> j"
    then show "\<forall>k. j \<le> k \<and> k < p \<and> k < length amp \<longrightarrow> \<not> amp ! k < 3 * sigma"
      using clear by simp
  qed
  then show ?thesis using Some by simp
qed

lemma first_below_after_le:
  "(case first_below_after amp sigma p of None \<Rightarrow> length amp | Some k \<Rightarrow> k) \<le> length amp"
proof (cases "first_below_after amp sigma p")
  case None
  then show ?thesis by simp
next
  case (Some k0)
  then have "k0 \<in> set [Suc p..<length amp]"
    unfolding first_below_after_def find_Some_iff by (metis nth_mem)
  then show ?thesis using Some by simp
qed

lemma interval_Collect: "{j::nat. lo \<le> j \<and> j < hi} = {lo..<hi}"
  by auto

lemma charge_mask_region:
  assumes "p < length amp"
  shows "{j. j < length amp \<and> charge_mask amp sigma p ! j} = set (charge_region amp sigma p)"
proof -
  let ?lo = "case first_below_before amp sigma p of None \<Rightarrow> 0 | Some k \<Rightarrow> Suc k"
  let ?hi = "case first_below_after amp sigma p of None \<Rightarrow> length amp | Some k \<Rightarrow> k"
  have "j < length amp \<and> charge_mask amp sigma p ! j \<longleftrightarrow> ?lo \<le> j \<and> j < ?hi" for j
  proof (cases "j < length amp")
    case True
    show ?thesis
      unfolding charge_mask_nth[OF True] first_below_after_bound[OF True]
        first_below_before_bound[OF assms]
      using True by blast
  next
    case False
    then show ?thesis using first_below_after_le[of amp sigma p] by simp
  qed
  then have "{j. j < length amp \<and> charge_mask amp sigma p ! j} = {j. ?lo \<le> j \<and> j < ?hi}"
    by (rule Collect_cong)
  also have "\<dots> = {?lo..<?hi}" by (rule interval_Collect)
  also have "\<dots> = set (charge_region amp sigma p)"
    unfolding charge_region_def by (rule set_upt[symmetric])
  finally show ?thesis .
qed

lemma masked_sum_region:
  assumes "p < length amp"
  shows "masked_sum amp sigma p = sum_list (map (\<lambda>j. amp ! j) (charge_region amp sigma p))"
proof -
  have "sum_list (map (\<lambda>j. amp ! j) (charge_region amp sigma p))
      = (\<Sum>j\<in>set (charge_region amp sigma p). amp ! j)"
    unfolding charge_region_def by (rule interv_sum_list_conv_sum_set_nat)
  then show ?thesis
    unfolding masked_sum_as_sum charge_mask_region[OF assms] by (rule sym)
qed

subsection \<open>Pedestal stage\<close>

lemma quiet_samples_nth:
  assumes "\<forall>j\<in>set bins. j < length raw"
  shows "quiet_samples vs bins raw = map (\<lambda>j. real_of_int (raw ! j) * vs) bins"
  using assms by (simp add: quiet_samples_def scaled_row_def)

lemma corrected_row_nth:
  assumes "i < length raw"
  shows "corrected_row rp vs bins raw ! i =
     (if rp then - (real_of_int (raw ! i) * vs - np_mean (quiet_samples vs bins raw))
      else real_of_int (raw ! i) * vs - np_mean (quiet_samples vs bins raw))"
  using assms by (simp add: corrected_row_def scaled_row_def)

lemma corrected_row_flip:
  "corrected_row (\<not> rp) vs bins raw = map uminus (corrected_row rp vs bins raw)"
  by (simp add: corrected_row_def)

lemma np_std_nonneg: "0 \<le> np_std xs"
proof -
  have "0 \<le> sum_list (map (\<lambda>x. \<bar>x - np_mean xs\<bar>\<^sup>2) xs)"
    by (rule sum_list_nonneg) auto
  then show ?thesis by (simp add: np_std_def np_mean_def)
qed

text \<open>
  Claim C7. After the pedestal stage on a valid input, for every waveform \<open>w\<close>: the
  pedestal is the mean of \<open>raw * voltage_scale\<close> over the pedestal bins; the pedestal sigma
  is the population standard deviation of the same samples (the root of their mean squared
  deviation from the pedestal) and is not negative; every sample of the corrected
  amplitude is \<open>raw * voltage_scale\<close> minus the pedestal, negated when \<open>reverse_polarity\<close>
  is set; and the same input with \<open>reverse_polarity\<close> flipped gives the negated amplitudes
  with the same pedestals and the same sigmas.
\<close>

theorem pedestal_stage:
  assumes "valid_input wfs aw pw ns" and "w < length wfs"
  shows "\<exists>s amps peds sigmas.
      and_then (init_analysis wfs thr aw pw rp ns vs off) find_pedestals = Inr s
    \<and> amplitudes s = Some amps \<and> pedestals s = Some peds \<and> pedestal_sigmas s = Some sigmas
    \<and> peds ! w = sum_list (map (\<lambda>j. real_of_int (wfs ! w ! j) * vs) [fst pw div ns..<snd pw div ns])
                   / real (snd pw div ns - fst pw div ns)
    \<and> sigmas ! w = sqrt (sum_list (map (\<lambda>j. (real_of_int (wfs ! w ! j) * vs - peds ! w)\<^sup>2)
                                    [fst pw div ns..<snd pw div ns])
                          / real (snd pw div ns - fst pw div ns))
    \<and> 0 \<le> sigmas ! w
    \<and> length (amps ! w) = length (wfs ! w)
    \<and> (\<forall>i<length (wfs ! w). amps ! w ! i =
          (if rp then - (real_of_int (wfs ! w ! i) * vs - peds ! w)
           else real_of_int (wfs ! w ! i) * vs - peds ! w))
    \<and> (\<exists>s'. and_then (init_analysis wfs thr aw pw (\<not> rp) ns vs off) find_pedestals = Inr s'
          \<and> amplitudes s' = Some (map (map uminus) amps)
          \<and> pedestals s' = Some peds \<and> pedestal_sigmas s' = Some sigmas)"
proof -
  let ?bins = "[fst pw div ns..<snd pw div ns]"
  note v = valid_inputD[OF assms(1)]
  obtain s where s:
    "and_then (init_analysis wfs thr aw pw rp ns vs off) find_pedestals = Inr s"
    "amplitudes s = Some (map (corrected_row rp vs ?bins) wfs)"
    "pedestals s = Some (map (\<lambda>raw. np_mean (quiet_samples vs ?bins raw)) wfs)"
    "pedestal_sigmas s = Some (map (\<lambda>raw. np_std (quiet_samples vs ?bins raw)) wfs)"
    using pedestals_from_fresh[OF assms(1), of thr rp vs off] by blast
  obtain s' where s':
    "and_then (init_analysis wfs thr aw pw (\<not> rp) ns vs off) find_pedestals = Inr s'"
    "amplitudes s' = Some (map (corrected_row (\<not> rp) vs ?bins) wfs)"
    "pedestals s' = Some (map (\<lambda>raw. np_mean (quiet_samples vs ?bins raw)) wfs)"
    "pedestal_sigmas s' = Some (map (\<lambda>raw. np_std (quiet_samples vs ?bins raw)) wfs)"
    using pedestals_from_fresh[OF assms(1), of thr "\<not> rp" vs off] by blast
  let ?amps = "map (corrected_row rp vs ?bins) wfs"
  let ?peds = "map (\<lambda>raw. np_mean (quiet_samples vs ?bins raw)) wfs"
  let ?sigmas = "map (\<lambda>raw. np_std (quiet_samples vs ?bins raw)) wfs"
  have mem: "wfs ! w \<in> set wfs" using assms(2) by simp
  have len: "length (wfs ! w) = length (hd wfs)" using v(2) mem by blast
  have inr: "\<forall>j\<in>set ?bins. j < length (wfs ! w)" using v(7) len by simp
  have q: "quiet_samples vs ?bins (wfs ! w) = map (\<lambda>j. real_of_int (wfs ! w ! j) * vs) ?bins"
    by (rule quiet_samples_nth[OF inr])
  have pw: "?peds ! w = np_mean (quiet_samples vs ?bins (wfs ! w))" using assms(2) by simp
  have c1: "?peds ! w = sum_list (map (\<lambda>j. real_of_int (wfs ! w ! j) * vs) ?bins)
                   / real (snd pw div ns - fst pw div ns)"
    unfolding pw q by (simp add: np_mean_def)
  have sw: "?sigmas ! w = np_std (quiet_samples vs ?bins (wfs ! w))" using assms(2) by simp
  have c2: "?sigmas ! w = sqrt (sum_list (map (\<lambda>j. (real_of_int (wfs ! w ! j) * vs - ?peds ! w)\<^sup>2) ?bins)
                          / real (snd pw div ns - fst pw div ns))"
    unfolding sw pw unfolding q by (simp add: np_std_def np_mean_def o_def)
  have c3: "0 \<le> ?sigmas ! w" unfolding sw by (rule np_std_nonneg)
  have aw: "?amps ! w = corrected_row rp vs ?bins (wfs ! w)" using assms(2) by simp
  have c4: "length (?amps ! w) = length (wfs ! w)" unfolding aw by simp
  have c5: "\<forall>i<length (wfs ! w). ?amps ! w ! i =
          (if rp then - (real_of_int (wfs ! w ! i) * vs - ?peds ! w)
           else real_of_int (wfs ! w ! i) * vs - ?peds ! w)"
    unfolding aw pw by (simp add: corrected_row_nth)
  have c6: "amplitudes s' = Some (map (map uminus) ?amps)"
    unfolding s'(2) by (simp add: corrected_row_flip)
  from s(1,2,3,4) c1 c2 c3 c4 c5 s'(1) c6 s'(3,4) show ?thesis by blast
qed

text \<open>
  The claim at one waveform with samples 5, 6, 10 in the analysis window and -1, 1 in the
  pedestal window, polarity reversed: pedestal 0, sigma 1, corrected samples -5 and -10.
\<close>

theorem pedestal_stage_witness:
  "valid_input [[5, 6, 10, - 1, 1]] (0, 3) (3, 5) 1 \<and> (0::nat) < length [[5, 6, 10, - 1, 1 :: int]]
   \<and> (\<exists>s amps peds sigmas.
        and_then (init_analysis [[5, 6, 10, - 1, 1]] (1 / 100) (0, 3) (3, 5) True 1 1 0)
          find_pedestals = Inr s
      \<and> amplitudes s = Some amps \<and> pedestals s = Some peds \<and> pedestal_sigmas s = Some sigmas
      \<and> peds ! 0 = 0 \<and> sigmas ! 0 = 1 \<and> amps ! 0 ! 0 = - 5 \<and> amps ! 0 ! 2 = - 10)"
proof -
  let ?W = "[[5, 6, 10, - 1, 1 :: int]]"
  have h1: "valid_input ?W (0, 3) (3, 5) 1" by (simp add: valid_input_def)
  have h2: "(0::nat) < length ?W" by simp
  from pedestal_stage[OF h1 h2, of "1 / 100" True 1 0]
  obtain s amps peds sigmas where r:
    "and_then (init_analysis ?W (1 / 100) (0, 3) (3, 5) True 1 1 0) find_pedestals = Inr s"
    "amplitudes s = Some amps" "pedestals s = Some peds" "pedestal_sigmas s = Some sigmas"
    "peds ! 0 = sum_list (map (\<lambda>j. real_of_int (?W ! 0 ! j) * 1) [fst (3::nat, 5::nat) div 1..<snd (3::nat, 5::nat) div 1])
                   / real (snd (3::nat, 5::nat) div 1 - fst (3::nat, 5::nat) div 1)"
    "sigmas ! 0 = sqrt (sum_list (map (\<lambda>j. (real_of_int (?W ! 0 ! j) * 1 - peds ! 0)\<^sup>2)
                                    [fst (3::nat, 5::nat) div 1..<snd (3::nat, 5::nat) div 1])
                          / real (snd (3::nat, 5::nat) div 1 - fst (3::nat, 5::nat) div 1))"
    "\<forall>i<length (?W ! 0). amps ! 0 ! i =
          (if True then - (real_of_int (?W ! 0 ! i) * 1 - peds ! 0)
           else real_of_int (?W ! 0 ! i) * 1 - peds ! 0)"
    by blast
  have p: "peds ! 0 = 0" using r(5) by simp
  have g: "sigmas ! 0 = 1" using r(6) unfolding p by simp
  have a0: "amps ! 0 ! 0 = - 5" using r(7) p by simp
  have a2: "amps ! 0 ! 2 = - 10" using r(7) p by simp
  from h1 h2 r(1-4) p g a0 a2 show ?thesis by blast
qed

subsection \<open>Peak stage\<close>

text \<open>
  Claim C6. After the peak stage on a valid input, for every waveform \<open>w\<close>: the peak
  location lies inside the analysis bins, no sample of the analysis bins is larger than
  the sample there, and every earlier sample of the analysis bins is strictly smaller (the
  first maximum wins a tie); the peak voltage is the corrected amplitude at the start of
  the analysis bins plus the peak location; and the peak time is the start of the analysis
  window plus (peak location + 1/2) sampling intervals.
\<close>

theorem peak_stage:
  assumes "valid_input wfs aw pw ns" and "w < length wfs"
  shows "\<exists>s amps locs volts times.
      and_then (init_analysis wfs thr aw pw rp ns vs off) find_peaks = Inr s
    \<and> amplitudes s = Some amps \<and> peak_locations s = Some locs
    \<and> peak_voltages s = Some volts \<and> peak_times s = Some times
    \<and> locs ! w < snd aw div ns - fst aw div ns
    \<and> (\<forall>j<snd aw div ns - fst aw div ns.
          amps ! w ! (fst aw div ns + j) \<le> amps ! w ! (fst aw div ns + locs ! w))
    \<and> (\<forall>j<locs ! w. amps ! w ! (fst aw div ns + j) < amps ! w ! (fst aw div ns + locs ! w))
    \<and> volts ! w = amps ! w ! (fst aw div ns + locs ! w)
    \<and> times ! w = real (fst aw) + (real (locs ! w) + 1 / 2) * real ns"
proof -
  let ?b0 = "fst aw div ns" and ?b1 = "snd aw div ns"
  let ?bins = "[?b0..<?b1]"
  let ?amps = "map (corrected_row rp vs [fst pw div ns..<snd pw div ns]) wfs"
  let ?locs = "map (\<lambda>row. first_max (window_of ?bins row)) ?amps"
  let ?volts = "map (\<lambda>row. window_of ?bins row ! first_max (window_of ?bins row)) ?amps"
  let ?times = "map (\<lambda>row. real (fst aw) + (real (first_max (window_of ?bins row)) + 1 / 2) * real ns) ?amps"
  note v = valid_inputD[OF assms(1)]
  obtain s where s:
    "and_then (init_analysis wfs thr aw pw rp ns vs off) find_peaks = Inr s"
    "amplitudes s = Some ?amps" "peak_locations s = Some ?locs"
    "peak_times s = Some ?times" "peak_voltages s = Some ?volts"
    using peaks_from_fresh[OF assms(1), of thr rp vs off] by blast
  let ?row = "?amps ! w"
  let ?win = "window_of ?bins ?row"
  have wl: "w < length ?amps" using assms(2) by simp
  have lw: "?locs ! w = first_max ?win" using wl by simp
  have ne: "?win \<noteq> []" using v(4) by (simp add: window_of_def)
  note fm = first_max_spec[OF ne]
  have len: "length ?win = ?b1 - ?b0" by simp
  have c1: "?locs ! w < ?b1 - ?b0" unfolding lw using fm(1) len by simp
  have at: "?win ! (?locs ! w) = ?row ! (?b0 + ?locs ! w)"
    by (rule window_of_upt_nth[OF c1])
  have c2: "\<forall>j<?b1 - ?b0. ?row ! (?b0 + j) \<le> ?row ! (?b0 + ?locs ! w)"
  proof (intro allI impI)
    fix j assume j: "j < ?b1 - ?b0"
    then have "?win ! j \<le> ?win ! first_max ?win" using fm(2) len by simp
    then show "?row ! (?b0 + j) \<le> ?row ! (?b0 + ?locs ! w)"
      unfolding at[symmetric] lw[symmetric] window_of_upt_nth[OF j] .
  qed
  have c3: "\<forall>j<?locs ! w. ?row ! (?b0 + j) < ?row ! (?b0 + ?locs ! w)"
  proof (intro allI impI)
    fix j assume j: "j < ?locs ! w"
    then have j': "j < ?b1 - ?b0" using c1 by simp
    from j have "?win ! j < ?win ! first_max ?win" using fm(3) lw by simp
    then show "?row ! (?b0 + j) < ?row ! (?b0 + ?locs ! w)"
      unfolding at[symmetric] lw[symmetric] window_of_upt_nth[OF j'] .
  qed
  have c4: "?volts ! w = ?row ! (?b0 + ?locs ! w)"
    unfolding at[symmetric] using wl by simp
  have c5: "?times ! w = real (fst aw) + (real (?locs ! w) + 1 / 2) * real ns"
    using wl by simp
  from s(1,2,3,5,4) c1 c2 c3 c4 c5 show ?thesis by blast
qed

text \<open>
  The claim at a flat-topped waveform (5, 10, 10 in the analysis window): the first of the
  two maxima is the peak, at location 1, with voltage 10 and time (1 + 1/2) * 2 = 3.
\<close>

theorem peak_stage_witness:
  "valid_input [[5, 10, 10, - 1, 1]] (0, 6) (6, 10) 2 \<and> (0::nat) < length [[5, 10, 10, - 1, 1 :: int]]
   \<and> (\<exists>s locs volts times.
        and_then (init_analysis [[5, 10, 10, - 1, 1]] (1 / 100) (0, 6) (6, 10) False 2 1 0)
          find_peaks = Inr s
      \<and> peak_locations s = Some locs \<and> peak_voltages s = Some volts \<and> peak_times s = Some times
      \<and> locs ! 0 = 1 \<and> volts ! 0 = 10 \<and> times ! 0 = 3)"
proof -
  let ?W = "[[5, 10, 10, - 1, 1 :: int]]"
  have h1: "valid_input ?W (0, 6) (6, 10) 2" by (simp add: valid_input_def)
  have h2: "(0::nat) < length ?W" by simp
  from peaks_from_fresh[OF h1, of "1 / 100" False 1 0]
  obtain s0 where s0:
    "and_then (init_analysis ?W (1 / 100) (0, 6) (6, 10) False 2 1 0) find_peaks = Inr s0"
    "amplitudes s0 = Some (map (corrected_row False 1 [fst (6::nat, 10::nat) div 2..<snd (6::nat, 10::nat) div 2]) ?W)"
    by blast
  have rows: "map (corrected_row False 1 [fst (6::nat, 10::nat) div 2..<snd (6::nat, 10::nat) div 2]) ?W
      = [[5, 10, 10, - 1, 1]]"
    by (simp add: corrected_row_def scaled_row_def quiet_samples_def np_mean_def)
  from peak_stage[OF h1 h2, of "1 / 100" False 1 0]
  obtain s amps locs volts times where r:
    "and_then (init_analysis ?W (1 / 100) (0, 6) (6, 10) False 2 1 0) find_peaks = Inr s"
    "amplitudes s = Some amps" "peak_locations s = Some locs"
    "peak_voltages s = Some volts" "peak_times s = Some times"
    "locs ! 0 < snd (0::nat, 6::nat) div 2 - fst (0::nat, 6::nat) div 2"
    "\<forall>j<snd (0::nat, 6::nat) div 2 - fst (0::nat, 6::nat) div 2.
          amps ! 0 ! (fst (0::nat, 6::nat) div 2 + j) \<le> amps ! 0 ! (fst (0::nat, 6::nat) div 2 + locs ! 0)"
    "\<forall>j<locs ! 0. amps ! 0 ! (fst (0::nat, 6::nat) div 2 + j) < amps ! 0 ! (fst (0::nat, 6::nat) div 2 + locs ! 0)"
    "volts ! 0 = amps ! 0 ! (fst (0::nat, 6::nat) div 2 + locs ! 0)"
    "times ! 0 = real (fst (0::nat, 6::nat)) + (real (locs ! 0) + 1 / 2) * real (2::nat)"
    by blast
  have "s = s0" using r(1) s0(1) by simp
  then have amps: "amps = [[5, 10, 10, - 1, 1]]" using r(2) s0(2) rows by simp
  have lt: "locs ! 0 < 3" using r(6) by simp
  have ge: "amps ! 0 ! 1 \<le> amps ! 0 ! (locs ! 0)" using r(7) by simp
  have l: "locs ! 0 = 1"
  proof -
    consider "locs ! 0 = 0" | "locs ! 0 = 1" | "locs ! 0 = 2" using lt by linarith
    then show ?thesis
    proof cases
      case 1
      with ge amps show ?thesis by simp
    next
      case 2
      then show ?thesis .
    next
      case 3
      have "(1::nat) < locs ! 0" using 3 by simp
      with r(8) have "amps ! 0 ! (fst (0::nat, 6::nat) div 2 + 1) < amps ! 0 ! (fst (0::nat, 6::nat) div 2 + locs ! 0)"
        by blast
      then show ?thesis unfolding amps 3 by simp
    qed
  qed
  have vo: "volts ! 0 = 10" using r(9) l amps by simp
  have ti: "times ! 0 = 3" using r(10) l by simp
  from h1 h2 r(1,3,4,5) l vo ti show ?thesis by blast
qed

subsection \<open>Timing stage: the peak at the very first sample\<close>

text \<open>
  Claim C3. On a valid input the timing stage returns a result for every waveform, never
  an error; and for every waveform whose peak location in the full waveform (start of the
  analysis bins plus peak location) is 0, the loop appends the sentinel 0, so that the
  signal time after scaling and offset is exactly \<open>time_offset\<close>.
\<close>

theorem peak_at_origin_signal_time:
  assumes "valid_input wfs aw pw ns" and "w < length wfs"
  shows "\<exists>s amps locs volts ts.
      and_then (init_analysis wfs thr aw pw rp ns vs off) calculate_signal_times = Inr s
    \<and> amplitudes s = Some amps \<and> peak_locations s = Some locs
    \<and> peak_voltages s = Some volts \<and> signal_times s = Some ts
    \<and> (fst aw div ns + locs ! w = 0 \<longrightarrow>
          signal_time_entry s (volts ! w) (locs ! w) (amps ! w) = Inr 0 \<and> ts ! w = off)"
proof -
  from timing_rows[OF assms, of thr rp vs off]
  obtain s amps locs volts ts where r:
    "and_then (init_analysis wfs thr aw pw rp ns vs off) calculate_signal_times = Inr s"
    "amplitudes s = Some amps" "peak_locations s = Some locs" "peak_voltages s = Some volts"
    "signal_times s = Some ts"
    "locs ! w = 0 \<longrightarrow>
          signal_time_entry s (volts ! w) (locs ! w) (amps ! w) = Inr 0 \<and> ts ! w = off"
    by (elim exE conjE) (rule that)
  have c: "fst aw div ns + locs ! w = 0 \<longrightarrow>
          signal_time_entry s (volts ! w) (locs ! w) (amps ! w) = Inr 0 \<and> ts ! w = off"
    using r(6) by simp
  show ?thesis
    by (intro exI conjI) (rule r(1) r(2) r(3) r(4) r(5) c)+
qed

text \<open>
  The claim at a waveform whose maximum is its first sample, with time offset 7: the
  signal time is 7.
\<close>

theorem peak_at_origin_signal_time_witness:
  "valid_input [[10, 6, 5, - 1, 1]] (0, 3) (3, 5) 1 \<and> (0::nat) < length [[10, 6, 5, - 1, 1 :: int]]
   \<and> (\<exists>s locs ts.
        and_then (init_analysis [[10, 6, 5, - 1, 1]] (1 / 100) (0, 3) (3, 5) False 1 1 7)
          calculate_signal_times = Inr s
      \<and> peak_locations s = Some locs \<and> signal_times s = Some ts
      \<and> fst (0::nat, 3::nat) div 1 + locs ! 0 = 0 \<and> ts ! 0 = 7)"
proof -
  let ?W = "[[10, 6, 5, - 1, 1 :: int]]"
  have h1: "valid_input ?W (0, 3) (3, 5) 1" by (simp add: valid_input_def)
  have h2: "(0::nat) < length ?W" by simp
  obtain s0 ts0 where s0:
    "and_then (init_analysis ?W (1 / 100) (0, 3) (3, 5) False 1 1 7) calculate_signal_times = Inr s0"
    "peak_locations s0 = Some (map (\<lambda>row. first_max (window_of [fst (0::nat, 3::nat) div 1..<snd (0::nat, 3::nat) div 1] row))
        (map (corrected_row False 1 [fst (3::nat, 5::nat) div 1..<snd (3::nat, 5::nat) div 1]) ?W))"
    by (rule signal_times_from_fresh[OF h1, of "1 / 100" False 1 7])
  have rows: "map (corrected_row False 1 [fst (3::nat, 5::nat) div 1..<snd (3::nat, 5::nat) div 1]) ?W
      = [[10, 6, 5, - 1, 1]]"
    by (simp add: corrected_row_def scaled_row_def quiet_samples_def np_mean_def)
  have l0: "peak_locations s0 = Some [0]"
    unfolding s0(2) rows by (simp add: window_of_def first_max_def upt_rec)
  from peak_at_origin_signal_time[OF h1 h2, of "1 / 100" False 1 7]
  obtain s amps locs volts ts where r:
    "and_then (init_analysis ?W (1 / 100) (0, 3) (3, 5) False 1 1 7) calculate_signal_times = Inr s"
    "amplitudes s = Some amps" "peak_locations s = Some locs" "peak_voltages s = Some volts"
    "signal_times s = Some ts"
    "fst (0::nat, 3::nat) div 1 + locs ! 0 = 0 \<longrightarrow>
          signal_time_entry s (volts ! 0) (locs ! 0) (amps ! 0) = Inr 0 \<and> ts ! 0 = 7"
    by (elim exE conjE) (rule that)
  have "s = s0" using r(1) s0(1) by simp
  then have "locs = [0]" using r(3) l0 by simp
  then have z: "fst (0::nat, 3::nat) div 1 + locs ! 0 = 0" by simp
  with r(6) have t: "ts ! 0 = 7" by blast
  show ?thesis
    by (intro conjI exI) (rule h1 h2 r(1) r(3) r(5) z t)+
qed

subsection \<open>Timing stage: no sample below the threshold before the peak\<close>

lemma singleton_nth: "length xs = Suc 0 \<Longrightarrow> xs = [xs ! 0]"
  by (cases xs) simp_all

lemma read_attr_Inr: "r = Inr s \<Longrightarrow> field s = Some x \<Longrightarrow> read_attr field r = Inr x"
  by (simp add: read_attr_def attr_def)

text \<open>A waveform that rises from its first sample: 5, 6, 10, then the pedestal samples -1, 1.\<close>

lemma rising_example_run:
  "\<exists>s. and_then (init_analysis [[5, 6, 10, - 1, 1]] (1 / 100) (0, 3) (3, 5) False 1 1 0)
          calculate_signal_times = Inr s
     \<and> amplitudes s = Some [[5, 6, 10, - 1, 1]] \<and> peak_locations s = Some [2]
     \<and> peak_voltages s = Some [10] \<and> signal_times s = Some [1]"
proof -
  let ?W = "[[5, 6, 10, - 1, 1 :: int]]"
  have h1: "valid_input ?W (0, 3) (3, 5) 1" by (simp add: valid_input_def)
  have rows: "map (corrected_row False 1 [fst (3::nat, 5::nat) div 1..<snd (3::nat, 5::nat) div 1]) ?W
      = [[5, 6, 10, - 1, 1]]"
    by (simp add: corrected_row_def scaled_row_def quiet_samples_def np_mean_def)
  have bins: "[fst (0::nat, 3::nat) div 1..<snd (0::nat, 3::nat) div 1] = [0, 1, 2]"
    by (simp add: upt_rec)
  obtain s ts where s:
    "and_then (init_analysis ?W (1 / 100) (0, 3) (3, 5) False 1 1 0) calculate_signal_times = Inr s"
    "amplitudes s = Some [[5, 6, 10, - 1, 1]]"
    "peak_locations s = Some (map (\<lambda>row. first_max (window_of [0, 1, 2] row)) [[5, 6, 10, - 1, 1]])"
    "peak_voltages s = Some (map (\<lambda>row. window_of [0, 1, 2] row ! first_max (window_of [0, 1, 2] row))
         [[5, 6, 10, - 1, 1]])"
    "signal_times s = Some ts" "length ts = length ?W"
    "analysis_bins s = [0, 1, 2]" "analysis_window s = (0, 3)"
    "\<forall>w t. w < length ?W \<longrightarrow>
        signal_time_entry s
          (map (\<lambda>row. window_of [0, 1, 2] row ! first_max (window_of [0, 1, 2] row)) [[5, 6, 10, - 1, 1]] ! w)
          (map (\<lambda>row. first_max (window_of [0, 1, 2] row)) [[5, 6, 10, - 1, 1]] ! w)
          ([[5, 6, 10, - 1, 1]] ! w) = Inr t
        \<longrightarrow> ts ! w = t * real (1::nat) + 0"
    by (rule signal_times_from_fresh[OF h1, of "1 / 100" False 1 0, unfolded rows bins])
  have loc: "first_max (window_of [0, 1, 2] [5, 6, 10, - 1, 1 :: real]) = 2"
    by (simp add: window_of_def first_max_def)
  have volt: "window_of [0, 1, 2] [5, 6, 10, - 1, 1 :: real] ! 2 = 10"
    by (simp add: window_of_def)
  have entry: "signal_time_entry s 10 2 [5, 6, 10, - 1, 1] = Inr 1"
    by (simp add: signal_time_entry_def s(7,8) Let_def peak_rise_time_fraction_def
          np_argmax_def np_interp_def)
  have e': "signal_time_entry s
          (map (\<lambda>row. window_of [0, 1, 2] row ! first_max (window_of [0, 1, 2] row)) [[5, 6, 10, - 1, 1]] ! 0)
          (map (\<lambda>row. first_max (window_of [0, 1, 2] row)) [[5, 6, 10, - 1, 1]] ! 0)
          ([[5, 6, 10, - 1, 1]] ! 0) = Inr 1"
    unfolding list.map nth_Cons_0 loc volt by (rule entry)
  have "ts ! 0 = 1 * real (1::nat) + 0"
    by (rule s(9)[rule_format, OF _ e']) simp
  then have "ts ! 0 = 1" by simp
  moreover have "ts = [ts ! 0]" using s(6) by (intro singleton_nth) simp
  ultimately have ts: "ts = [1]" by simp
  have c3: "peak_locations s = Some [2]" unfolding s(3) list.map loc by (rule refl)
  have c4: "peak_voltages s = Some [10]" unfolding s(4) list.map loc volt by (rule refl)
  have c5: "signal_times s = Some [1]" unfolding s(5) ts ..
  show ?thesis
    by (intro exI conjI) (rule s(1) s(2) c3 c4 c5)+
qed

text \<open>
  Claim C2, as amended. With an analysis window that starts at 0, for every waveform
  whose peak location is not 0 and none of whose samples before the peak is strictly below
  \<open>peak_rise_time_fraction\<close> times the peak voltage, the backward scan stops at its first
  position, the sample just before the peak, and the signal time is
  \<open>(peak location - 1) * ns_per_sample + time_offset\<close>.
\<close>

theorem no_crossing_signal_time:
  assumes "valid_input wfs aw pw ns" and "w < length wfs" and "fst aw = 0"
  shows "\<exists>s amps locs volts ts.
      and_then (init_analysis wfs thr aw pw rp ns vs off) calculate_signal_times = Inr s
    \<and> amplitudes s = Some amps \<and> peak_locations s = Some locs
    \<and> peak_voltages s = Some volts \<and> signal_times s = Some ts
    \<and> (locs ! w \<noteq> 0
          \<and> (\<forall>j<locs ! w. \<not> amps ! w ! j < peak_rise_time_fraction * volts ! w)
          \<longrightarrow> ts ! w = (real (locs ! w) - 1) * real ns + off)"
proof -
  from timing_rows[OF assms(1,2), of thr rp vs off]
  obtain s amps locs volts ts where r:
    "and_then (init_analysis wfs thr aw pw rp ns vs off) calculate_signal_times = Inr s"
    "amplitudes s = Some amps" "peak_locations s = Some locs" "peak_voltages s = Some volts"
    "signal_times s = Some ts"
    "locs ! w \<noteq> 0
       \<and> (\<forall>j<locs ! w + fst aw div ns. \<not> amps ! w ! j < peak_rise_time_fraction * volts ! w)
       \<longrightarrow> ts ! w = (real (fst aw) + (real (locs ! w + fst aw div ns) - 1)) * real ns + off"
    by (elim exE conjE) (rule that)
  have c: "locs ! w \<noteq> 0
          \<and> (\<forall>j<locs ! w. \<not> amps ! w ! j < peak_rise_time_fraction * volts ! w)
          \<longrightarrow> ts ! w = (real (locs ! w) - 1) * real ns + off"
    using r(6) assms(3) by simp
  show ?thesis
    by (intro exI conjI) (rule r(1) r(2) r(3) r(4) r(5) c)+
qed

text \<open>The amended claim at the rising waveform: peak location 2, signal time (2 - 1) * 1 + 0.\<close>

theorem no_crossing_signal_time_witness:
  "valid_input [[5, 6, 10, - 1, 1]] (0, 3) (3, 5) 1 \<and> (0::nat) < length [[5, 6, 10, - 1, 1 :: int]]
   \<and> fst (0::nat, 3::nat) = 0
   \<and> (\<exists>s amps locs volts ts.
        and_then (init_analysis [[5, 6, 10, - 1, 1]] (1 / 100) (0, 3) (3, 5) False 1 1 0)
          calculate_signal_times = Inr s
      \<and> amplitudes s = Some amps \<and> peak_locations s = Some locs
      \<and> peak_voltages s = Some volts \<and> signal_times s = Some ts
      \<and> locs ! 0 \<noteq> 0
      \<and> (\<forall>j<locs ! 0. \<not> amps ! 0 ! j < peak_rise_time_fraction * volts ! 0)
      \<and> ts ! 0 = (real (locs ! 0) - 1) * real (1::nat) + 0)"
proof -
  let ?W = "[[5, 6, 10, - 1, 1 :: int]]"
  have h1: "valid_input ?W (0, 3) (3, 5) 1" by (simp add: valid_input_def)
  have h2: "(0::nat) < length ?W" by simp
  have h3: "fst (0::nat, 3::nat) = 0" by simp
  from rising_example_run obtain s0 where s0:
    "and_then (init_analysis ?W (1 / 100) (0, 3) (3, 5) False 1 1 0) calculate_signal_times = Inr s0"
    "amplitudes s0 = Some [[5, 6, 10, - 1, 1]]" "peak_locations s0 = Some [2]"
    "peak_voltages s0 = Some [10]"
    by (elim exE conjE) (rule that)
  from no_crossing_signal_time[OF h1 h2 h3, of "1 / 100" False 1 0]
  obtain s amps locs volts ts where r:
    "and_then (init_analysis ?W (1 / 100) (0, 3) (3, 5) False 1 1 0) calculate_signal_times = Inr s"
    "amplitudes s = Some amps" "peak_locations s = Some locs" "peak_voltages s = Some volts"
    "signal_times s = Some ts"
    "locs ! 0 \<noteq> 0
       \<and> (\<forall>j<locs ! 0. \<not> amps ! 0 ! j < peak_rise_time_fraction * volts ! 0)
       \<longrightarrow> ts ! 0 = (real (locs ! 0) - 1) * real (1::nat) + 0"
    by (elim exE conjE) (rule that)
  have "s = s0" using r(1) s0(1) by simp
  then have v: "amps = [[5, 6, 10, - 1, 1]]" "locs = [2]" "volts = [10]"
    using r(2,3,4) s0(2,3,4) by simp_all
  have p1: "locs ! 0 \<noteq> 0" unfolding v by simp
  have p2: "\<forall>j<locs ! 0. \<not> amps ! 0 ! j < peak_rise_time_fraction * volts ! 0"
    unfolding v by (simp add: peak_rise_time_fraction_def numeral_2_eq_2 less_Suc_eq)
  from r(6) p1 p2 have t: "ts ! 0 = (real (locs ! 0) - 1) * real (1::nat) + 0" by blast
  show ?thesis
    by (intro conjI exI) (rule h1 h2 h3 r(1) r(2) r(3) r(4) r(5) p1 p2 t)+
qed

text \<open>
  Claim C2 as stated fails at the rising waveform: the peak is at sample 2 with voltage 10,
  the samples 5 and 6 before it are not below the threshold 4, and the signal time is 1,
  not the time offset 0 that a crossing index 0 would give.
\<close>

theorem no_crossing_counterexample:
  "read_attr peak_locations
      (and_then (init_analysis [[5, 6, 10, - 1, 1]] (1 / 100) (0, 3) (3, 5) False 1 1 0)
         calculate_signal_times) = Inr [2]
   \<and> read_attr amplitudes
      (and_then (init_analysis [[5, 6, 10, - 1, 1]] (1 / 100) (0, 3) (3, 5) False 1 1 0)
         calculate_signal_times) = Inr [[5, 6, 10, - 1, 1]]
   \<and> read_attr peak_voltages
      (and_then (init_analysis [[5, 6, 10, - 1, 1]] (1 / 100) (0, 3) (3, 5) False 1 1 0)
         calculate_signal_times) = Inr [10]
   \<and> \<not> (5::real) < peak_rise_time_fraction * 10 \<and> \<not> (6::real) < peak_rise_time_fraction * 10
   \<and> read_attr signal_times
      (and_then (init_analysis [[5, 6, 10, - 1, 1]] (1 / 100) (0, 3) (3, 5) False 1 1 0)
         calculate_signal_times) = Inr [1]
   \<and> read_attr signal_times
      (and_then (init_analysis [[5, 6, 10, - 1, 1]] (1 / 100) (0, 3) (3, 5) False 1 1 0)
         calculate_signal_times) \<noteq> Inr [0 * real (1::nat) + 0]"
proof -
  from rising_example_run obtain s where s:
    "and_then (init_analysis [[5, 6, 10, - 1, 1]] (1 / 100) (0, 3) (3, 5) False 1 1 0)
       calculate_signal_times = Inr s"
    "amplitudes s = Some [[5, 6, 10, - 1, 1]]" "peak_locations s = Some [2]"
    "peak_voltages s = Some [10]" "signal_times s = Some [1]"
    by (elim exE conjE) (rule that)
  have t: "read_attr signal_times
      (and_then (init_analysis [[5, 6, 10, - 1, 1]] (1 / 100) (0, 3) (3, 5) False 1 1 0)
         calculate_signal_times) = Inr [1]"
    by (rule read_attr_Inr[where field = signal_times, OF s(1) s(5)])
  show ?thesis
    unfolding t
    by (intro conjI read_attr_Inr[where field = peak_locations, OF s(1) s(3)]
          read_attr_Inr[where field = amplitudes, OF s(1) s(2)]
          read_attr_Inr[where field = peak_voltages, OF s(1) s(4)])
       (simp_all add: peak_rise_time_fraction_def)
qed

subsection \<open>Timing stage: the crossing before the peak\<close>

text \<open>A ramp 0, 5, 10 sampled every 2 ns, then the pedestal samples -1, 1.\<close>

lemma ramp_example_run:
  "\<exists>s. and_then (init_analysis [[0, 5, 10, - 1, 1]] (1 / 100) (0, 6) (6, 10) False 2 1 0)
          calculate_signal_times = Inr s
     \<and> amplitudes s = Some [[0, 5, 10, - 1, 1]] \<and> peak_locations s = Some [2]
     \<and> peak_voltages s = Some [10]"
proof -
  let ?W = "[[0, 5, 10, - 1, 1 :: int]]"
  have h1: "valid_input ?W (0, 6) (6, 10) 2" by (simp add: valid_input_def)
  have rows: "map (corrected_row False 1 [fst (6::nat, 10::nat) div 2..<snd (6::nat, 10::nat) div 2]) ?W
      = [[0, 5, 10, - 1, 1]]"
    by (simp add: corrected_row_def scaled_row_def quiet_samples_def np_mean_def)
  have bins: "[fst (0::nat, 6::nat) div 2..<snd (0::nat, 6::nat) div 2] = [0, 1, 2]"
    by (simp add: upt_rec)
  obtain s ts where s:
    "and_then (init_analysis ?W (1 / 100) (0, 6) (6, 10) False 2 1 0) calculate_signal_times = Inr s"
    "amplitudes s = Some [[0, 5, 10, - 1, 1]]"
    "peak_locations s = Some (map (\<lambda>row. first_max (window_of [0, 1, 2] row)) [[0, 5, 10, - 1, 1]])"
    "peak_voltages s = Some (map (\<lambda>row. window_of [0, 1, 2] row ! first_max (window_of [0, 1, 2] row))
         [[0, 5, 10, - 1, 1]])"
    by (rule signal_times_from_fresh[OF h1, of "1 / 100" False 1 0, unfolded rows bins])
  have loc: "first_max (window_of [0, 1, 2] [0, 5, 10, - 1, 1 :: real]) = 2"
    by (simp add: window_of_def first_max_def)
  have volt: "window_of [0, 1, 2] [0, 5, 10, - 1, 1 :: real] ! 2 = 10"
    by (simp add: window_of_def)
  have c3: "peak_locations s = Some [2]" unfolding s(3) list.map loc by (rule refl)
  have c4: "peak_voltages s = Some [10]" unfolding s(4) list.map loc volt by (rule refl)
  show ?thesis
    by (intro exI conjI) (rule s(1) s(2) c3 c4)+
qed

text \<open>A waveform that stays below its pedestal: -10, -5, then the pedestal samples -1, 1.\<close>

lemma negative_example_run:
  "\<exists>s. and_then (init_analysis [[- 10, - 5, - 1, 1]] (1 / 100) (0, 2) (2, 4) False 1 1 0)
          calculate_signal_times = Inr s
     \<and> amplitudes s = Some [[- 10, - 5, - 1, 1]] \<and> peak_locations s = Some [1]
     \<and> peak_voltages s = Some [- 5] \<and> signal_times s = Some [1]"
proof -
  let ?W = "[[- 10, - 5, - 1, 1 :: int]]"
  have h1: "valid_input ?W (0, 2) (2, 4) 1" by (simp add: valid_input_def)
  have rows: "map (corrected_row False 1 [fst (2::nat, 4::nat) div 1..<snd (2::nat, 4::nat) div 1]) ?W
      = [[- 10, - 5, - 1, 1]]"
    by (simp add: corrected_row_def scaled_row_def quiet_samples_def np_mean_def)
  have bins: "[fst (0::nat, 2::nat) div 1..<snd (0::nat, 2::nat) div 1] = [0, 1]"
    by (simp add: upt_rec)
  obtain s ts where s:
    "and_then (init_analysis ?W (1 / 100) (0, 2) (2, 4) False 1 1 0) calculate_signal_times = Inr s"
    "amplitudes s = Some [[- 10, - 5, - 1, 1]]"
    "peak_locations s = Some (map (\<lambda>row. first_max (window_of [0, 1] row)) [[- 10, - 5, - 1, 1]])"
    "peak_voltages s = Some (map (\<lambda>row. window_of [0, 1] row ! first_max (window_of [0, 1] row))
         [[- 10, - 5, - 1, 1]])"
    "signal_times s = Some ts" "length ts = length ?W"
    "analysis_bins s = [0, 1]" "analysis_window s = (0, 2)"
    "\<forall>w t. w < length ?W \<longrightarrow>
        signal_time_entry s
          (map (\<lambda>row. window_of [0, 1] row ! first_max (window_of [0, 1] row)) [[- 10, - 5, - 1, 1]] ! w)
          (map (\<lambda>row. first_max (window_of [0, 1] row)) [[- 10, - 5, - 1, 1]] ! w)
          ([[- 10, - 5, - 1, 1]] ! w) = Inr t
        \<longrightarrow> ts ! w = t * real (1::nat) + 0"
    by (rule signal_times_from_fresh[OF h1, of "1 / 100" False 1 0, unfolded rows bins])
  have loc: "first_max (window_of [0, 1] [- 10, - 5, - 1, 1 :: real]) = 1"
    by (simp add: window_of_def first_max_def)
  have volt: "window_of [0, 1] [- 10, - 5, - 1, 1 :: real] ! 1 = - 5"
    by (simp add: window_of_def)
  have entry: "signal_time_entry s (- 5) 1 [- 10, - 5, - 1, 1] = Inr 1"
    by (simp add: signal_time_entry_def s(7,8) Let_def peak_rise_time_fraction_def
          np_argmax_def np_interp_def)
  have e': "signal_time_entry s
          (map (\<lambda>row. window_of [0, 1] row ! first_max (window_of [0, 1] row)) [[- 10, - 5, - 1, 1]] ! 0)
          (map (\<lambda>row. first_max (window_of [0, 1] row)) [[- 10, - 5, - 1, 1]] ! 0)
          ([[- 10, - 5, - 1, 1]] ! 0) = Inr 1"
    unfolding list.map nth_Cons_0 loc volt by (rule entry)
  have "ts ! 0 = 1 * real (1::nat) + 0"
    by (rule s(9)[rule_format, OF _ e']) simp
  then have "ts ! 0 = 1" by simp
  moreover have "ts = [ts ! 0]" using s(6) by (intro singleton_nth) simp
  ultimately have ts: "ts = [1]" by simp
  have c3: "peak_locations s = Some [1]" unfolding s(3) list.map loc by (rule refl)
  have c4: "peak_voltages s = Some [- 5]" unfolding s(4) list.map loc volt by (rule refl)
  have c5: "signal_times s = Some [1]" unfolding s(5) ts ..
  show ?thesis
    by (intro exI conjI) (rule s(1) s(2) c3 c4 c5)+
qed

text \<open>
  Claim C1, as amended. With an analysis window that starts at 0, for every waveform whose
  peak location is not 0, whose peak voltage is not negative, and in which sample \<open>i\<close> is
  the first one strictly below \<open>peak_rise_time_fraction\<close> times the peak voltage when
  scanning backward from the sample before the peak, the signal time is
  \<open>crossing * ns_per_sample + time_offset\<close>, where \<open>crossing\<close> is the fractional index at
  which the straight line through samples \<open>i\<close> and \<open>i + 1\<close> meets that threshold.
\<close>

theorem crossing_signal_time:
  assumes "valid_input wfs aw pw ns" and "w < length wfs" and "fst aw = 0"
  shows "\<exists>s amps locs volts ts.
      and_then (init_analysis wfs thr aw pw rp ns vs off) calculate_signal_times = Inr s
    \<and> amplitudes s = Some amps \<and> peak_locations s = Some locs
    \<and> peak_voltages s = Some volts \<and> signal_times s = Some ts
    \<and> (\<forall>i. locs ! w \<noteq> 0 \<and> 0 \<le> volts ! w \<and> i < locs ! w
          \<and> amps ! w ! i < peak_rise_time_fraction * volts ! w
          \<and> (\<forall>j. i < j \<and> j < locs ! w
                 \<longrightarrow> \<not> amps ! w ! j < peak_rise_time_fraction * volts ! w)
          \<longrightarrow> ts ! w = interpolated_crossing (peak_rise_time_fraction * volts ! w)
                             (amps ! w ! i) (amps ! w ! Suc i) i * real ns + off)"
proof -
  from timing_rows[OF assms(1,2), of thr rp vs off]
  obtain s amps locs volts ts where r:
    "and_then (init_analysis wfs thr aw pw rp ns vs off) calculate_signal_times = Inr s"
    "amplitudes s = Some amps" "peak_locations s = Some locs" "peak_voltages s = Some volts"
    "signal_times s = Some ts"
    "\<forall>i. locs ! w \<noteq> 0 \<and> 0 \<le> volts ! w \<and> i < locs ! w + fst aw div ns
          \<and> amps ! w ! i < peak_rise_time_fraction * volts ! w
          \<and> (\<forall>j. i < j \<and> j < locs ! w + fst aw div ns
                 \<longrightarrow> \<not> amps ! w ! j < peak_rise_time_fraction * volts ! w)
          \<longrightarrow> ts ! w = (real (fst aw) + interpolated_crossing (peak_rise_time_fraction * volts ! w)
                               (amps ! w ! i) (amps ! w ! Suc i) i) * real ns + off"
    by (elim exE conjE) (rule that)
  have c: "\<forall>i. locs ! w \<noteq> 0 \<and> 0 \<le> volts ! w \<and> i < locs ! w
          \<and> amps ! w ! i < peak_rise_time_fraction * volts ! w
          \<and> (\<forall>j. i < j \<and> j < locs ! w
                 \<longrightarrow> \<not> amps ! w ! j < peak_rise_time_fraction * volts ! w)
          \<longrightarrow> ts ! w = interpolated_crossing (peak_rise_time_fraction * volts ! w)
                             (amps ! w ! i) (amps ! w ! Suc i) i * real ns + off"
    using r(6) assms(3) by simp
  show ?thesis
    by (intro exI conjI) (rule r(1) r(2) r(3) r(4) r(5) c)+
qed

text \<open>
  The amended claim at the ramp: peak 10 at location 2, threshold 4, sample 0 is the first
  below it, the crossing is at index 4/5 and the signal time is 4/5 * 2 = 8/5.
\<close>

theorem crossing_signal_time_witness:
  "valid_input [[0, 5, 10, - 1, 1]] (0, 6) (6, 10) 2 \<and> (0::nat) < length [[0, 5, 10, - 1, 1 :: int]]
   \<and> fst (0::nat, 6::nat) = 0
   \<and> (\<exists>s amps locs volts ts.
        and_then (init_analysis [[0, 5, 10, - 1, 1]] (1 / 100) (0, 6) (6, 10) False 2 1 0)
          calculate_signal_times = Inr s
      \<and> amplitudes s = Some amps \<and> peak_locations s = Some locs
      \<and> peak_voltages s = Some volts \<and> signal_times s = Some ts
      \<and> locs ! 0 \<noteq> 0 \<and> 0 \<le> volts ! 0 \<and> 0 < locs ! 0
      \<and> amps ! 0 ! 0 < peak_rise_time_fraction * volts ! 0
      \<and> (\<forall>j. 0 < j \<and> j < locs ! 0 \<longrightarrow> \<not> amps ! 0 ! j < peak_rise_time_fraction * volts ! 0)
      \<and> ts ! 0 = 8 / 5)"
proof -
  let ?W = "[[0, 5, 10, - 1, 1 :: int]]"
  have h1: "valid_input ?W (0, 6) (6, 10) 2" by (simp add: valid_input_def)
  have h2: "(0::nat) < length ?W" by simp
  have h3: "fst (0::nat, 6::nat) = 0" by simp
  from ramp_example_run obtain s0 where s0:
    "and_then (init_analysis ?W (1 / 100) (0, 6) (6, 10) False 2 1 0) calculate_signal_times = Inr s0"
    "amplitudes s0 = Some [[0, 5, 10, - 1, 1]]" "peak_locations s0 = Some [2]"
    "peak_voltages s0 = Some [10]"
    by (elim exE conjE) (rule that)
  from crossing_signal_time[OF h1 h2 h3, of "1 / 100" False 1 0]
  obtain s amps locs volts ts where r:
    "and_then (init_analysis ?W (1 / 100) (0, 6) (6, 10) False 2 1 0) calculate_signal_times = Inr s"
    "amplitudes s = Some amps" "peak_locations s = Some locs" "peak_voltages s = Some volts"
    "signal_times s = Some ts"
    "\<forall>i. locs ! 0 \<noteq> 0 \<and> 0 \<le> volts ! 0 \<and> i < locs ! 0
          \<and> amps ! 0 ! i < peak_rise_time_fraction * volts ! 0
          \<and> (\<forall>j. i < j \<and> j < locs ! 0
                 \<longrightarrow> \<not> amps ! 0 ! j < peak_rise_time_fraction * volts ! 0)
          \<longrightarrow> ts ! 0 = interpolated_crossing (peak_rise_time_fraction * volts ! 0)
                             (amps ! 0 ! i) (amps ! 0 ! Suc i) i * real (2::nat) + 0"
    by (elim exE conjE) (rule that)
  have "s = s0" using r(1) s0(1) by simp
  then have v: "amps = [[0, 5, 10, - 1, 1]]" "locs = [2]" "volts = [10]"
    using r(2,3,4) s0(2,3,4) by simp_all
  have p1: "locs ! 0 \<noteq> 0" unfolding v by simp
  have p2: "0 \<le> volts ! 0" unfolding v by simp
  have p3: "0 < locs ! 0" unfolding v by simp
  have p4: "amps ! 0 ! 0 < peak_rise_time_fraction * volts ! 0"
    unfolding v by (simp add: peak_rise_time_fraction_def)
  have p5: "\<forall>j. 0 < j \<and> j < locs ! 0 \<longrightarrow> \<not> amps ! 0 ! j < peak_rise_time_fraction * volts ! 0"
  proof (intro allI impI)
    fix j assume "0 < j \<and> j < locs ! 0"
    then have "j = 1" unfolding v by simp
    then show "\<not> amps ! 0 ! j < peak_rise_time_fraction * volts ! 0"
      unfolding v by (simp add: peak_rise_time_fraction_def)
  qed
  from r(6) p1 p2 p3 p4 p5
  have "ts ! 0 = interpolated_crossing (peak_rise_time_fraction * volts ! 0)
                             (amps ! 0 ! 0) (amps ! 0 ! Suc 0) 0 * real (2::nat) + 0"
    by blast
  then have t: "ts ! 0 = 8 / 5"
    unfolding v by (simp add: interpolated_crossing_def peak_rise_time_fraction_def)
  show ?thesis
    by (intro conjI exI) (rule h1 h2 h3 r(1) r(2) r(3) r(4) r(5) p1 p2 p3 p4 p5 t)+
qed

text \<open>
  Claim C1 as stated fails at a waveform whose peak is negative: the peak is -5 at
  location 1, the threshold -2 lies above it, sample 0 (-10) is below the threshold, and
  the line through samples 0 and 1 meets -2 at index 8/5; the interpolation clamps at the
  peak instead and the signal time is 1.
\<close>

theorem crossing_counterexample:
  "read_attr peak_locations
      (and_then (init_analysis [[- 10, - 5, - 1, 1]] (1 / 100) (0, 2) (2, 4) False 1 1 0)
         calculate_signal_times) = Inr [1]
   \<and> read_attr amplitudes
      (and_then (init_analysis [[- 10, - 5, - 1, 1]] (1 / 100) (0, 2) (2, 4) False 1 1 0)
         calculate_signal_times) = Inr [[- 10, - 5, - 1, 1]]
   \<and> read_attr peak_voltages
      (and_then (init_analysis [[- 10, - 5, - 1, 1]] (1 / 100) (0, 2) (2, 4) False 1 1 0)
         calculate_signal_times) = Inr [- 5]
   \<and> (- 10 :: real) < peak_rise_time_fraction * (- 5)
   \<and> read_attr signal_times
      (and_then (init_analysis [[- 10, - 5, - 1, 1]] (1 / 100) (0, 2) (2, 4) False 1 1 0)
         calculate_signal_times) = Inr [1]
   \<and> read_attr signal_times
      (and_then (init_analysis [[- 10, - 5, - 1, 1]] (1 / 100) (0, 2) (2, 4) False 1 1 0)
         calculate_signal_times)
      \<noteq> Inr [interpolated_crossing (peak_rise_time_fraction * (- 5)) (- 10) (- 5) 0
               * real (1::nat) + 0]"
proof -
  from negative_example_run obtain s where s:
    "and_then (init_analysis [[- 10, - 5, - 1, 1]] (1 / 100) (0, 2) (2, 4) False 1 1 0)
       calculate_signal_times = Inr s"
    "amplitudes s = Some [[- 10, - 5, - 1, 1]]" "peak_locations s = Some [1]"
    "peak_voltages s = Some [- 5]" "signal_times s = Some [1]"
    by (elim exE conjE) (rule that)
  have t: "read_attr signal_times
      (and_then (init_analysis [[- 10, - 5, - 1, 1]] (1 / 100) (0, 2) (2, 4) False 1 1 0)
         calculate_signal_times) = Inr [1]"
    by (rule read_attr_Inr[where field = signal_times, OF s(1) s(5)])
  show ?thesis
    unfolding t
    by (intro conjI read_attr_Inr[where field = peak_locations, OF s(1) s(3)]
          read_attr_Inr[where field = amplitudes, OF s(1) s(2)]
          read_attr_Inr[where field = peak_voltages, OF s(1) s(4)])
       (simp_all add: peak_rise_time_fraction_def interpolated_crossing_def)
qed

subsection \<open>Charge stage\<close>

text \<open>
  Claim C4. After the charge stage on a valid input, for every waveform \<open>w\<close>, with
  \<open>below i\<close> meaning \<open>amplitude[i] < 3 * pedestal_sigma\<close> and the peak at the start of
  the analysis bins plus the peak location: the integrated charge is the sum of the
  amplitudes over the run of samples around the peak that ends just before the first
  \<open>below\<close> sample after the peak and starts just after the first \<open>below\<close> sample before
  the peak, times \<open>ns_per_sample\<close> and divided by the impedance.
\<close>

theorem charge_stage:
  assumes "valid_input wfs aw pw ns" and "w < length wfs"
  shows "\<exists>s amps sigmas locs qs.
      and_then (init_analysis wfs thr aw pw rp ns vs off) integrate_charges = Inr s
    \<and> amplitudes s = Some amps \<and> pedestal_sigmas s = Some sigmas
    \<and> peak_locations s = Some locs \<and> integrated_charges s = Some qs
    \<and> qs ! w = sum_list (map (\<lambda>j. amps ! w ! j)
                   (charge_region (amps ! w) (sigmas ! w) (fst aw div ns + locs ! w)))
               * real ns / real impedance"
proof -
  from charge_rows[OF assms, of thr rp vs off]
  obtain s amps sigmas locs qs where r:
    "and_then (init_analysis wfs thr aw pw rp ns vs off) integrate_charges = Inr s"
    "amplitudes s = Some amps" "pedestal_sigmas s = Some sigmas"
    "peak_locations s = Some locs" "integrated_charges s = Some qs"
    "fst aw div ns + locs ! w < length (amps ! w)"
    "qs ! w = masked_sum (amps ! w) (sigmas ! w) (fst aw div ns + locs ! w)
                  * (real ns / real impedance)"
    by (elim exE conjE) (rule that)
  have c: "qs ! w = sum_list (map (\<lambda>j. amps ! w ! j)
                   (charge_region (amps ! w) (sigmas ! w) (fst aw div ns + locs ! w)))
               * real ns / real impedance"
    unfolding r(7) masked_sum_region[OF r(6)] by simp
  show ?thesis
    by (intro exI conjI) (rule r(1) r(2) r(3) r(4) r(5) c)+
qed

text \<open>A pulse 0, 4, 10, 4, 0 followed by the pedestal samples -1, 1 (sigma 1).\<close>

lemma pulse_example_rows:
  "\<exists>s. and_then (init_analysis [[0, 4, 10, 4, 0, - 1, 1]] (1 / 100) (0, 5) (5, 7) False 1 1 0)
          integrate_charges = Inr s
     \<and> (\<exists>amps. amplitudes s = Some amps \<and> amps ! 0 = [0, 4, 10, 4, 0, - 1, 1])
     \<and> (\<exists>sigmas. pedestal_sigmas s = Some sigmas \<and> sigmas ! 0 = 1)
     \<and> (\<exists>locs. peak_locations s = Some locs \<and> locs ! 0 = 2)"
proof -
  let ?W = "[[0, 4, 10, 4, 0, - 1, 1 :: int]]"
  have h1: "valid_input ?W (0, 5) (5, 7) 1" by (simp add: valid_input_def)
  have h2: "(0::nat) < length ?W" by simp
  from charge_rows[OF h1 h2, of "1 / 100" False 1 0]
  obtain s amps sigmas locs where r:
    "and_then (init_analysis ?W (1 / 100) (0, 5) (5, 7) False 1 1 0) integrate_charges = Inr s"
    "amplitudes s = Some amps" "pedestal_sigmas s = Some sigmas" "peak_locations s = Some locs"
    "amps ! 0 = corrected_row False 1 [fst (5::nat, 7::nat) div 1..<snd (5::nat, 7::nat) div 1] (?W ! 0)"
    "sigmas ! 0 = np_std (quiet_samples 1 [fst (5::nat, 7::nat) div 1..<snd (5::nat, 7::nat) div 1] (?W ! 0))"
    "locs ! 0 = first_max (window_of [fst (0::nat, 5::nat) div 1..<snd (0::nat, 5::nat) div 1] (amps ! 0))"
    by (elim exE conjE) (rule that)
  have a: "amps ! 0 = [0, 4, 10, 4, 0, - 1, 1]"
    unfolding r(5) by (simp add: corrected_row_def scaled_row_def quiet_samples_def np_mean_def)
  have g: "sigmas ! 0 = 1"
    unfolding r(6) by (simp add: scaled_row_def quiet_samples_def np_std_def np_mean_def)
  have l: "locs ! 0 = 2"
    unfolding r(7) a by (simp add: window_of_def first_max_def upt_rec)
  from r(1,2,3,4) a g l show ?thesis by blast
qed

text \<open>
  The claim at the pulse: the region is samples 1, 2, 3 and the charge is
  (4 + 10 + 4) * 1 / 50 = 9/25.
\<close>

theorem charge_stage_witness:
  "valid_input [[0, 4, 10, 4, 0, - 1, 1]] (0, 5) (5, 7) 1
   \<and> (0::nat) < length [[0, 4, 10, 4, 0, - 1, 1 :: int]]
   \<and> (\<exists>s amps sigmas locs qs.
        and_then (init_analysis [[0, 4, 10, 4, 0, - 1, 1]] (1 / 100) (0, 5) (5, 7) False 1 1 0)
          integrate_charges = Inr s
      \<and> amplitudes s = Some amps \<and> pedestal_sigmas s = Some sigmas
      \<and> peak_locations s = Some locs \<and> integrated_charges s = Some qs
      \<and> charge_region (amps ! 0) (sigmas ! 0) (fst (0::nat, 5::nat) div 1 + locs ! 0) = [1, 2, 3]
      \<and> qs ! 0 = 9 / 25)"
proof -
  let ?W = "[[0, 4, 10, 4, 0, - 1, 1 :: int]]"
  have h1: "valid_input ?W (0, 5) (5, 7) 1" by (simp add: valid_input_def)
  have h2: "(0::nat) < length ?W" by simp
  from pulse_example_rows obtain s0 amps0 sigmas0 locs0 where s0:
    "and_then (init_analysis ?W (1 / 100) (0, 5) (5, 7) False 1 1 0) integrate_charges = Inr s0"
    "amplitudes s0 = Some amps0" "amps0 ! 0 = [0, 4, 10, 4, 0, - 1, 1]"
    "pedestal_sigmas s0 = Some sigmas0" "sigmas0 ! 0 = 1"
    "peak_locations s0 = Some locs0" "locs0 ! 0 = 2"
    by (elim exE conjE) (rule that)
  from charge_stage[OF h1 h2, of "1 / 100" False 1 0]
  obtain s amps sigmas locs qs where r:
    "and_then (init_analysis ?W (1 / 100) (0, 5) (5, 7) False 1 1 0) integrate_charges = Inr s"
    "amplitudes s = Some amps" "pedestal_sigmas s = Some sigmas"
    "peak_locations s = Some locs" "integrated_charges s = Some qs"
    "qs ! 0 = sum_list (map (\<lambda>j. amps ! 0 ! j)
                   (charge_region (amps ! 0) (sigmas ! 0) (fst (0::nat, 5::nat) div 1 + locs ! 0)))
               * real (1::nat) / real impedance"
    by (elim exE conjE) (rule that)
  have "s = s0" using r(1) s0(1) by simp
  then have "amps = amps0" "sigmas = sigmas0" "locs = locs0"
    using r(2,3,4) s0(2,4,6) by simp_all
  then have v: "amps ! 0 = [0, 4, 10, 4, 0, - 1, 1]" "sigmas ! 0 = 1" "locs ! 0 = 2"
    using s0(3,5,7) by simp_all
  have reg: "charge_region (amps ! 0) (sigmas ! 0) (fst (0::nat, 5::nat) div 1 + locs ! 0) = [1, 2, 3]"
    unfolding v by (simp add: charge_region_def first_below_before_def first_below_after_def upt_rec)
  have q: "qs ! 0 = 9 / 25"
    unfolding r(6) reg unfolding v by (simp add: impedance_def)
  show ?thesis
    by (intro conjI exI) (rule h1 h2 r(1) r(2) r(3) r(4) r(5) reg q)+
qed

subsection \<open>Charge stage: the peak sample is always integrated\<close>

lemma charge_mask_peak:
  assumes "p < length amp"
  shows "charge_mask amp sigma p ! p"
  unfolding charge_mask_nth[OF assms] by simp

lemma masked_sum_split_peak:
  assumes "p < length amp"
  shows "masked_sum amp sigma p =
     amp ! p + (\<Sum>j | j < length amp \<and> j \<noteq> p \<and> charge_mask amp sigma p ! j. amp ! j)"
proof -
  let ?S = "{j. j < length amp \<and> charge_mask amp sigma p ! j}"
  have fin: "finite ?S" by simp
  have mem: "p \<in> ?S" using assms charge_mask_peak[OF assms] by simp
  have "?S - {p} = {j. j < length amp \<and> j \<noteq> p \<and> charge_mask amp sigma p ! j}" by blast
  with sum.remove[OF fin mem, of "\<lambda>j. amp ! j"] show ?thesis
    unfolding masked_sum_as_sum by simp
qed

text \<open>
  Claim C9. After the charge stage on a valid input, for every waveform the mask of
  integrated samples is set at the peak sample, whatever its amplitude (the two cut-offs
  look only at samples strictly after and strictly before the peak), so that the
  integrated charge is the peak sample's \<open>amplitude * ns_per_sample / impedance\<close> plus the
  contribution of the other samples of the mask.
\<close>

theorem peak_in_charge_region:
  assumes "valid_input wfs aw pw ns" and "w < length wfs"
  shows "\<exists>s amps sigmas locs qs.
      and_then (init_analysis wfs thr aw pw rp ns vs off) integrate_charges = Inr s
    \<and> amplitudes s = Some amps \<and> pedestal_sigmas s = Some sigmas
    \<and> peak_locations s = Some locs \<and> integrated_charges s = Some qs
    \<and> fst aw div ns + locs ! w < length (amps ! w)
    \<and> charge_mask (amps ! w) (sigmas ! w) (fst aw div ns + locs ! w) ! (fst aw div ns + locs ! w)
    \<and> qs ! w = amps ! w ! (fst aw div ns + locs ! w) * real ns / real impedance
        + (\<Sum>j | j < length (amps ! w) \<and> j \<noteq> fst aw div ns + locs ! w
                 \<and> charge_mask (amps ! w) (sigmas ! w) (fst aw div ns + locs ! w) ! j.
             amps ! w ! j) * real ns / real impedance"
proof -
  from charge_rows[OF assms, of thr rp vs off]
  obtain s amps sigmas locs qs where r:
    "and_then (init_analysis wfs thr aw pw rp ns vs off) integrate_charges = Inr s"
    "amplitudes s = Some amps" "pedestal_sigmas s = Some sigmas"
    "peak_locations s = Some locs" "integrated_charges s = Some qs"
    "fst aw div ns + locs ! w < length (amps ! w)"
    "qs ! w = masked_sum (amps ! w) (sigmas ! w) (fst aw div ns + locs ! w)
                  * (real ns / real impedance)"
    by (elim exE conjE) (rule that)
  have c1: "charge_mask (amps ! w) (sigmas ! w) (fst aw div ns + locs ! w) ! (fst aw div ns + locs ! w)"
    by (rule charge_mask_peak[OF r(6)])
  have c2: "qs ! w = amps ! w ! (fst aw div ns + locs ! w) * real ns / real impedance
        + (\<Sum>j | j < length (amps ! w) \<and> j \<noteq> fst aw div ns + locs ! w
                 \<and> charge_mask (amps ! w) (sigmas ! w) (fst aw div ns + locs ! w) ! j.
             amps ! w ! j) * real ns / real impedance"
    unfolding r(7) masked_sum_split_peak[OF r(6)] by (simp add: algebra_simps add_divide_distrib)
  show ?thesis
    by (intro exI conjI) (rule r(1) r(2) r(3) r(4) r(5) r(6) c1 c2)+
qed

text \<open>A pulse 1, 2, 1 that stays below three sigma; pedestal samples -1, 1 (sigma 1).\<close>

lemma faint_example_rows:
  "\<exists>s. and_then (init_analysis [[1, 2, 1, - 1, 1]] (1 / 100) (0, 3) (3, 5) False 1 1 0)
          integrate_charges = Inr s
     \<and> (\<exists>amps. amplitudes s = Some amps \<and> amps ! 0 = [1, 2, 1, - 1, 1])
     \<and> (\<exists>sigmas. pedestal_sigmas s = Some sigmas \<and> sigmas ! 0 = 1)
     \<and> (\<exists>locs. peak_locations s = Some locs \<and> locs ! 0 = 1)"
proof -
  let ?W = "[[1, 2, 1, - 1, 1 :: int]]"
  have h1: "valid_input ?W (0, 3) (3, 5) 1" by (simp add: valid_input_def)
  have h2: "(0::nat) < length ?W" by simp
  from charge_rows[OF h1 h2, of "1 / 100" False 1 0]
  obtain s amps sigmas locs where r:
    "and_then (init_analysis ?W (1 / 100) (0, 3) (3, 5) False 1 1 0) integrate_charges = Inr s"
    "amplitudes s = Some amps" "pedestal_sigmas s = Some sigmas" "peak_locations s = Some locs"
    "amps ! 0 = corrected_row False 1 [fst (3::nat, 5::nat) div 1..<snd (3::nat, 5::nat) div 1] (?W ! 0)"
    "sigmas ! 0 = np_std (quiet_samples 1 [fst (3::nat, 5::nat) div 1..<snd (3::nat, 5::nat) div 1] (?W ! 0))"
    "locs ! 0 = first_max (window_of [fst (0::nat, 3::nat) div 1..<snd (0::nat, 3::nat) div 1] (amps ! 0))"
    by (elim exE conjE) (rule that)
  have a: "amps ! 0 = [1, 2, 1, - 1, 1]"
    unfolding r(5) by (simp add: corrected_row_def scaled_row_def quiet_samples_def np_mean_def)
  have g: "sigmas ! 0 = 1"
    unfolding r(6) by (simp add: scaled_row_def quiet_samples_def np_std_def np_mean_def)
  have l: "locs ! 0 = 1"
    unfolding r(7) a by (simp add: window_of_def first_max_def upt_rec)
  from r(1,2,3,4) a g l show ?thesis by blast
qed

text \<open>
  The claim at the faint pulse: the peak amplitude 2 is below three sigma, the mask holds
  the peak sample alone and the charge is 2 * 1 / 50 = 1/25.
\<close>

theorem peak_in_charge_region_witness:
  "valid_input [[1, 2, 1, - 1, 1]] (0, 3) (3, 5) 1 \<and> (0::nat) < length [[1, 2, 1, - 1, 1 :: int]]
   \<and> (\<exists>s amps sigmas locs qs.
        and_then (init_analysis [[1, 2, 1, - 1, 1]] (1 / 100) (0, 3) (3, 5) False 1 1 0)
          integrate_charges = Inr s
      \<and> amplitudes s = Some amps \<and> pedestal_sigmas s = Some sigmas
      \<and> peak_locations s = Some locs \<and> integrated_charges s = Some qs
      \<and> amps ! 0 ! (fst (0::nat, 3::nat) div 1 + locs ! 0) < 3 * sigmas ! 0
      \<and> charge_mask (amps ! 0) (sigmas ! 0) (fst (0::nat, 3::nat) div 1 + locs ! 0)
           = [False, True, False, False, False]
      \<and> qs ! 0 = 1 / 25)"
proof -
  let ?W = "[[1, 2, 1, - 1, 1 :: int]]"
  have h1: "valid_input ?W (0, 3) (3, 5) 1" by (simp add: valid_input_def)
  have h2: "(0::nat) < length ?W" by simp
  from faint_example_rows obtain s0 amps0 sigmas0 locs0 where s0:
    "and_then (init_analysis ?W (1 / 100) (0, 3) (3, 5) False 1 1 0) integrate_charges = Inr s0"
    "amplitudes s0 = Some amps0" "amps0 ! 0 = [1, 2, 1, - 1, 1]"
    "pedestal_sigmas s0 = Some sigmas0" "sigmas0 ! 0 = 1"
    "peak_locations s0 = Some locs0" "locs0 ! 0 = 1"
    by (elim exE conjE) (rule that)
  from peak_in_charge_region[OF h1 h2, of "1 / 100" False 1 0]
  obtain s amps sigmas locs qs where r:
    "and_then (init_analysis ?W (1 / 100) (0, 3) (3, 5) False 1 1 0) integrate_charges = Inr s"
    "amplitudes s = Some amps" "pedestal_sigmas s = Some sigmas"
    "peak_locations s = Some locs" "integrated_charges s = Some qs"
    "qs ! 0 = amps ! 0 ! (fst (0::nat, 3::nat) div 1 + locs ! 0) * real (1::nat) / real impedance
        + (\<Sum>j | j < length (amps ! 0) \<and> j \<noteq> fst (0::nat, 3::nat) div 1 + locs ! 0
                 \<and> charge_mask (amps ! 0) (sigmas ! 0) (fst (0::nat, 3::nat) div 1 + locs ! 0) ! j.
             amps ! 0 ! j) * real (1::nat) / real impedance"
    by (elim exE conjE) (rule that)
  have "s = s0" using r(1) s0(1) by simp
  then have "amps = amps0" "sigmas = sigmas0" "locs = locs0"
    using r(2,3,4) s0(2,4,6) by simp_all
  then have v: "amps ! 0 = [1, 2, 1, - 1, 1]" "sigmas ! 0 = 1" "locs ! 0 = 1"
    using s0(3,5,7) by simp_all
  have below: "amps ! 0 ! (fst (0::nat, 3::nat) div 1 + locs ! 0) < 3 * sigmas ! 0"
    unfolding v by simp
  have mask: "charge_mask (amps ! 0) (sigmas ! 0) (fst (0::nat, 3::nat) div 1 + locs ! 0)
           = [False, True, False, False, False]"
    unfolding v
    by (simp add: charge_mask_def before_peak_fall_def after_peak_rise_def below_threshold_def
          np_cumsum_def upt_rec)
  have empty: "{j. j < length (amps ! 0) \<and> j \<noteq> fst (0::nat, 3::nat) div 1 + locs ! 0
                 \<and> charge_mask (amps ! 0) (sigmas ! 0) (fst (0::nat, 3::nat) div 1 + locs ! 0) ! j}
      = {}"
    unfolding mask unfolding v by (auto simp: nth_Cons split: nat.splits)
  have q: "qs ! 0 = 1 / 25"
    unfolding r(6) empty unfolding v by (simp add: impedance_def)
  show ?thesis
    by (intro conjI exI) (rule h1 h2 r(1) r(2) r(3) r(4) r(5) below mask q)+
qed

subsection \<open>Scaling the integrated region\<close>

lemma length_scale_region [simp]:
  "length sel = length amp \<Longrightarrow> length (scale_region c amp sel) = length amp"
  by (simp add: scale_region_def)

lemma scale_region_nth:
  "length sel = length amp \<Longrightarrow> j < length amp \<Longrightarrow>
     scale_region c amp sel ! j = (if sel ! j then c * amp ! j else amp ! j)"
  by (simp add: scale_region_def)

lemma charge_mask_clear:
  assumes "j < length amp" "charge_mask amp sigma p ! j" "j \<noteq> p"
  shows "\<not> amp ! j < 3 * sigma"
proof (cases "p < j")
  case True
  then show ?thesis using assms(2) unfolding charge_mask_nth[OF assms(1)] by blast
next
  case False
  then have "j \<le> j \<and> j < p \<and> j < length amp" using assms(1,3) by simp
  then show ?thesis using assms(2) unfolding charge_mask_nth[OF assms(1)] by blast
qed

lemma charge_mask_scale_region:
  assumes "\<forall>j<length amp. charge_mask amp sigma p ! j \<and> j \<noteq> p \<longrightarrow> \<not> c * amp ! j < 3 * sigma"
  shows "charge_mask (scale_region c amp (charge_mask amp sigma p)) sigma p = charge_mask amp sigma p"
proof (rule nth_equalityI)
  let ?m = "charge_mask amp sigma p"
  let ?amp' = "scale_region c amp ?m"
  have len: "length ?amp' = length amp" by simp
  show "length (charge_mask ?amp' sigma p) = length ?m" using len by simp
  have same: "?amp' ! k < 3 * sigma \<longleftrightarrow> amp ! k < 3 * sigma" if "k < length amp" "k \<noteq> p" for k
  proof (cases "?m ! k")
    case True
    then have "\<not> amp ! k < 3 * sigma" using charge_mask_clear[OF that(1) _ that(2)] by blast
    moreover have "\<not> c * amp ! k < 3 * sigma" using assms that True by blast
    ultimately show ?thesis using that(1) True by (simp add: scale_region_nth)
  next
    case False
    then show ?thesis using that(1) by (simp add: scale_region_nth)
  qed
  fix j assume "j < length (charge_mask ?amp' sigma p)"
  then have j: "j < length amp" using len by simp
  then have j': "j < length ?amp'" using len by simp
  have a: "(\<forall>k. p < k \<and> k \<le> j \<longrightarrow> \<not> ?amp' ! k < 3 * sigma)
      \<longleftrightarrow> (\<forall>k. p < k \<and> k \<le> j \<longrightarrow> \<not> amp ! k < 3 * sigma)"
  proof (intro all_cong1 imp_cong refl)
    fix k assume "p < k \<and> k \<le> j"
    then have "k < length amp" "k \<noteq> p" using j by simp_all
    then show "(\<not> ?amp' ! k < 3 * sigma) = (\<not> amp ! k < 3 * sigma)" using same by simp
  qed
  have b: "(\<forall>k. j \<le> k \<and> k < p \<and> k < length ?amp' \<longrightarrow> \<not> ?amp' ! k < 3 * sigma)
      \<longleftrightarrow> (\<forall>k. j \<le> k \<and> k < p \<and> k < length amp \<longrightarrow> \<not> amp ! k < 3 * sigma)"
    unfolding len
  proof (intro all_cong1 imp_cong refl)
    fix k assume "j \<le> k \<and> k < p \<and> k < length amp"
    then have "k < length amp" "k \<noteq> p" by simp_all
    then show "(\<not> ?amp' ! k < 3 * sigma) = (\<not> amp ! k < 3 * sigma)" using same by simp
  qed
  show "charge_mask ?amp' sigma p ! j = ?m ! j"
    unfolding charge_mask_nth[OF j'] charge_mask_nth[OF j] a b ..
qed

lemma masked_sum_scale_region:
  assumes "\<forall>j<length amp. charge_mask amp sigma p ! j \<and> j \<noteq> p \<longrightarrow> \<not> c * amp ! j < 3 * sigma"
  shows "masked_sum (scale_region c amp (charge_mask amp sigma p)) sigma p = c * masked_sum amp sigma p"
proof -
  let ?m = "charge_mask amp sigma p"
  let ?amp' = "scale_region c amp ?m"
  have len: "length ?amp' = length amp" by simp
  have "masked_sum ?amp' sigma p = (\<Sum>j | j < length amp \<and> ?m ! j. ?amp' ! j)"
    unfolding masked_sum_as_sum charge_mask_scale_region[OF assms] len ..
  also have "\<dots> = (\<Sum>j | j < length amp \<and> ?m ! j. c * amp ! j)"
    by (rule sum.cong) (simp_all add: scale_region_nth)
  also have "\<dots> = c * (\<Sum>j | j < length amp \<and> ?m ! j. amp ! j)"
    by (rule sum_distrib_left[symmetric])
  finally show ?thesis unfolding masked_sum_as_sum .
qed

text \<open>
  Claim C5, as amended. Take two batches analysed under the same configuration such that,
  for waveform \<open>w\<close>, the second has the same pedestal sigma and peak location as the
  first and its amplitudes are those of the first with every sample of the integration
  region multiplied by \<open>c > 0\<close>. If every scaled sample of the region other than the
  peak stays at or above \<open>3 * pedestal_sigma\<close>, the integrated charge of the second is
  \<open>c\<close> times that of the first.
\<close>

theorem charge_scaling:
  assumes "valid_input wfs aw pw ns" and "valid_input wfs' aw pw ns"
    and "w < length wfs" and "w < length wfs'" and "0 < c"
  shows "\<exists>s s' amps amps' sigmas sigmas' locs locs' qs qs'.
      and_then (init_analysis wfs thr aw pw rp ns vs off) integrate_charges = Inr s
    \<and> and_then (init_analysis wfs' thr aw pw rp ns vs off) integrate_charges = Inr s'
    \<and> amplitudes s = Some amps \<and> amplitudes s' = Some amps'
    \<and> pedestal_sigmas s = Some sigmas \<and> pedestal_sigmas s' = Some sigmas'
    \<and> peak_locations s = Some locs \<and> peak_locations s' = Some locs'
    \<and> integrated_charges s = Some qs \<and> integrated_charges s' = Some qs'
    \<and> (sigmas' ! w = sigmas ! w \<and> locs' ! w = locs ! w
         \<and> amps' ! w = scale_region c (amps ! w)
                          (charge_mask (amps ! w) (sigmas ! w) (fst aw div ns + locs ! w))
         \<and> (\<forall>j<length (amps ! w).
                charge_mask (amps ! w) (sigmas ! w) (fst aw div ns + locs ! w) ! j
                \<and> j \<noteq> fst aw div ns + locs ! w
                \<longrightarrow> \<not> c * amps ! w ! j < 3 * sigmas ! w)
         \<longrightarrow> qs' ! w = c * qs ! w)"
proof -
  from charge_rows[OF assms(1,3), of thr rp vs off]
  obtain s amps sigmas locs qs where r:
    "and_then (init_analysis wfs thr aw pw rp ns vs off) integrate_charges = Inr s"
    "amplitudes s = Some amps" "pedestal_sigmas s = Some sigmas"
    "peak_locations s = Some locs" "integrated_charges s = Some qs"
    "qs ! w = masked_sum (amps ! w) (sigmas ! w) (fst aw div ns + locs ! w)
                  * (real ns / real impedance)"
    by (elim exE conjE) (rule that)
  from charge_rows[OF assms(2,4), of thr rp vs off]
  obtain s' amps' sigmas' locs' qs' where r':
    "and_then (init_analysis wfs' thr aw pw rp ns vs off) integrate_charges = Inr s'"
    "amplitudes s' = Some amps'" "pedestal_sigmas s' = Some sigmas'"
    "peak_locations s' = Some locs'" "integrated_charges s' = Some qs'"
    "qs' ! w = masked_sum (amps' ! w) (sigmas' ! w) (fst aw div ns + locs' ! w)
                  * (real ns / real impedance)"
    by (elim exE conjE) (rule that)
  let ?p = "fst aw div ns + locs ! w"
  have c: "sigmas' ! w = sigmas ! w \<and> locs' ! w = locs ! w
         \<and> amps' ! w = scale_region c (amps ! w) (charge_mask (amps ! w) (sigmas ! w) ?p)
         \<and> (\<forall>j<length (amps ! w). charge_mask (amps ! w) (sigmas ! w) ?p ! j \<and> j \<noteq> ?p
                \<longrightarrow> \<not> c * amps ! w ! j < 3 * sigmas ! w)
         \<longrightarrow> qs' ! w = c * qs ! w"
  proof (intro impI, elim conjE)
    assume h: "sigmas' ! w = sigmas ! w" "locs' ! w = locs ! w"
      "amps' ! w = scale_region c (amps ! w) (charge_mask (amps ! w) (sigmas ! w) ?p)"
      "\<forall>j<length (amps ! w). charge_mask (amps ! w) (sigmas ! w) ?p ! j \<and> j \<noteq> ?p
                \<longrightarrow> \<not> c * amps ! w ! j < 3 * sigmas ! w"
    show "qs' ! w = c * qs ! w"
      unfolding r(6) r'(6) h(1,2,3) masked_sum_scale_region[OF h(4)] by simp
  qed
  show ?thesis
    by (intro exI conjI) (rule r(1) r'(1) r(2) r'(2) r(3) r'(3) r(4) r'(4) r(5) r'(5) c)+
qed


lemma single_waveform_charge_run:
  fixes rp :: bool and vs :: real
  assumes "valid_input [raw] aw pw ns"
  defines "amp \<equiv> corrected_row rp vs [fst pw div ns..<snd pw div ns] raw"
  defines "sigma \<equiv> np_std (quiet_samples vs [fst pw div ns..<snd pw div ns] raw)"
  defines "loc \<equiv> first_max (window_of [fst aw div ns..<snd aw div ns] amp)"
  shows "\<exists>s. and_then (init_analysis [raw] thr aw pw rp ns vs off) integrate_charges = Inr s
     \<and> amplitudes s = Some [amp] \<and> pedestal_sigmas s = Some [sigma]
     \<and> peak_locations s = Some [loc]
     \<and> integrated_charges s
         = Some [masked_sum amp sigma (fst aw div ns + loc) * (real ns / real impedance)]"
proof -
  have h2: "(0::nat) < length [raw]" by simp
  from charge_rows[OF assms(1) h2, of thr rp vs off]
  obtain s amps sigmas locs qs where r:
    "and_then (init_analysis [raw] thr aw pw rp ns vs off) integrate_charges = Inr s"
    "amplitudes s = Some amps" "pedestal_sigmas s = Some sigmas"
    "peak_locations s = Some locs" "integrated_charges s = Some qs"
    "amps ! 0 = corrected_row rp vs [fst pw div ns..<snd pw div ns] ([raw] ! 0)"
    "sigmas ! 0 = np_std (quiet_samples vs [fst pw div ns..<snd pw div ns] ([raw] ! 0))"
    "locs ! 0 = first_max (window_of [fst aw div ns..<snd aw div ns] (amps ! 0))"
    "qs ! 0 = masked_sum (amps ! 0) (sigmas ! 0) (fst aw div ns + locs ! 0)
                  * (real ns / real impedance)"
    "length amps = length [raw]" "length sigmas = length [raw]"
    "length locs = length [raw]" "length qs = length [raw]"
    by (elim exE conjE) (rule that)
  have a: "amps = [amp]" using singleton_nth[of amps] r(6,10) by (simp add: amp_def)
  have g: "sigmas = [sigma]" using singleton_nth[of sigmas] r(7,11) by (simp add: sigma_def)
  have l: "locs = [loc]" using singleton_nth[of locs] r(8,12) a by (simp add: loc_def)
  have q: "qs = [masked_sum amp sigma (fst aw div ns + loc) * (real ns / real impedance)]"
    using singleton_nth[of qs] r(9,13) a g l by simp
  show ?thesis
    by (intro exI conjI) (rule r(1) r(2)[unfolded a] r(3)[unfolded g] r(4)[unfolded l] r(5)[unfolded q])+
qed

text \<open>
  Three pulses over the same pedestal samples -1, 1 (sigma 1, threshold 3): 10, 4, 0, the
  same with its first two samples doubled, and the same with its first two samples halved.
\<close>

lemma pulse_10_4_run:
  "\<exists>s. and_then (init_analysis [[10, 4, 0, - 1, 1]] (1 / 100) (0, 3) (3, 5) False 1 1 0)
          integrate_charges = Inr s
     \<and> amplitudes s = Some [[10, 4, 0, - 1, 1]] \<and> pedestal_sigmas s = Some [1]
     \<and> peak_locations s = Some [0] \<and> integrated_charges s = Some [7 / 25]"
proof -
  have h1: "valid_input [[10, 4, 0, - 1, 1]] (0, 3) (3, 5) 1" by (simp add: valid_input_def)
  have a: "corrected_row False 1 [fst (3::nat, 5::nat) div 1..<snd (3::nat, 5::nat) div 1]
             [10, 4, 0, - 1, 1] = [10, 4, 0, - 1, 1]"
    by (simp add: corrected_row_def scaled_row_def quiet_samples_def np_mean_def)
  have g: "np_std (quiet_samples 1 [fst (3::nat, 5::nat) div 1..<snd (3::nat, 5::nat) div 1]
             [10, 4, 0, - 1, 1]) = 1"
    by (simp add: scaled_row_def quiet_samples_def np_std_def np_mean_def)
  have l: "first_max (window_of [fst (0::nat, 3::nat) div 1..<snd (0::nat, 3::nat) div 1]
             [10, 4, 0, - 1, 1 :: real]) = 0"
    by (simp add: window_of_def first_max_def upt_rec)
  have q: "masked_sum [10, 4, 0, - 1, 1] 1 (fst (0::nat, 3::nat) div 1 + 0)
             * (real (1::nat) / real impedance) = 7 / 25"
    by (simp add: masked_sum_def charge_mask_def before_peak_fall_def after_peak_rise_def
          below_threshold_def np_cumsum_def upt_rec impedance_def)
  show ?thesis
    using single_waveform_charge_run[OF h1, of "1 / 100" False 1 0] unfolding a g l q .
qed

lemma pulse_20_8_run:
  "\<exists>s. and_then (init_analysis [[20, 8, 0, - 1, 1]] (1 / 100) (0, 3) (3, 5) False 1 1 0)
          integrate_charges = Inr s
     \<and> amplitudes s = Some [[20, 8, 0, - 1, 1]] \<and> pedestal_sigmas s = Some [1]
     \<and> peak_locations s = Some [0] \<and> integrated_charges s = Some [14 / 25]"
proof -
  have h1: "valid_input [[20, 8, 0, - 1, 1]] (0, 3) (3, 5) 1" by (simp add: valid_input_def)
  have a: "corrected_row False 1 [fst (3::nat, 5::nat) div 1..<snd (3::nat, 5::nat) div 1]
             [20, 8, 0, - 1, 1] = [20, 8, 0, - 1, 1]"
    by (simp add: corrected_row_def scaled_row_def quiet_samples_def np_mean_def)
  have g: "np_std (quiet_samples 1 [fst (3::nat, 5::nat) div 1..<snd (3::nat, 5::nat) div 1]
             [20, 8, 0, - 1, 1]) = 1"
    by (simp add: scaled_row_def quiet_samples_def np_std_def np_mean_def)
  have l: "first_max (window_of [fst (0::nat, 3::nat) div 1..<snd (0::nat, 3::nat) div 1]
             [20, 8, 0, - 1, 1 :: real]) = 0"
    by (simp add: window_of_def first_max_def upt_rec)
  have q: "masked_sum [20, 8, 0, - 1, 1] 1 (fst (0::nat, 3::nat) div 1 + 0)
             * (real (1::nat) / real impedance) = 14 / 25"
    by (simp add: masked_sum_def charge_mask_def before_peak_fall_def after_peak_rise_def
          below_threshold_def np_cumsum_def upt_rec impedance_def)
  show ?thesis
    using single_waveform_charge_run[OF h1, of "1 / 100" False 1 0] unfolding a g l q .
qed

lemma pulse_5_2_run:
  "\<exists>s. and_then (init_analysis [[5, 2, 0, - 1, 1]] (1 / 100) (0, 3) (3, 5) False 1 1 0)
          integrate_charges = Inr s
     \<and> amplitudes s = Some [[5, 2, 0, - 1, 1]] \<and> pedestal_sigmas s = Some [1]
     \<and> peak_locations s = Some [0] \<and> integrated_charges s = Some [1 / 10]"
proof -
  have h1: "valid_input [[5, 2, 0, - 1, 1]] (0, 3) (3, 5) 1" by (simp add: valid_input_def)
  have a: "corrected_row False 1 [fst (3::nat, 5::nat) div 1..<snd (3::nat, 5::nat) div 1]
             [5, 2, 0, - 1, 1] = [5, 2, 0, - 1, 1]"
    by (simp add: corrected_row_def scaled_row_def quiet_samples_def np_mean_def)
  have g: "np_std (quiet_samples 1 [fst (3::nat, 5::nat) div 1..<snd (3::nat, 5::nat) div 1]
             [5, 2, 0, - 1, 1]) = 1"
    by (simp add: scaled_row_def quiet_samples_def np_std_def np_mean_def)
  have l: "first_max (window_of [fst (0::nat, 3::nat) div 1..<snd (0::nat, 3::nat) div 1]
             [5, 2, 0, - 1, 1 :: real]) = 0"
    by (simp add: window_of_def first_max_def upt_rec)
  have q: "masked_sum [5, 2, 0, - 1, 1] 1 (fst (0::nat, 3::nat) div 1 + 0)
             * (real (1::nat) / real impedance) = 1 / 10"
    by (simp add: masked_sum_def charge_mask_def before_peak_fall_def after_peak_rise_def
          below_threshold_def np_cumsum_def upt_rec impedance_def)
  show ?thesis
    using single_waveform_charge_run[OF h1, of "1 / 100" False 1 0] unfolding a g l q .
qed

lemma mask_10_4: "charge_mask [10, 4, 0, - 1, 1] 1 0 = [True, True, False, False, False]"
  by (simp add: charge_mask_def before_peak_fall_def after_peak_rise_def
        below_threshold_def np_cumsum_def upt_rec)

text \<open>
  The amended claim at \<open>c = 2\<close>: the region of 10, 4, 0 is samples 0 and 1, the charges
  are (10 + 4) / 50 = 7/25 and (20 + 8) / 50 = 14/25.
\<close>

theorem charge_scaling_witness:
  "valid_input [[10, 4, 0, - 1, 1]] (0, 3) (3, 5) 1
   \<and> valid_input [[20, 8, 0, - 1, 1]] (0, 3) (3, 5) 1
   \<and> (0::nat) < length [[10, 4, 0, - 1, 1 :: int]]
   \<and> (0::nat) < length [[20, 8, 0, - 1, 1 :: int]]
   \<and> (0::real) < 2
   \<and> read_attr pedestal_sigmas
        (and_then (init_analysis [[10, 4, 0, - 1, 1]] (1 / 100) (0, 3) (3, 5) False 1 1 0)
           integrate_charges) = Inr [1]
   \<and> read_attr pedestal_sigmas
        (and_then (init_analysis [[20, 8, 0, - 1, 1]] (1 / 100) (0, 3) (3, 5) False 1 1 0)
           integrate_charges) = Inr [1]
   \<and> read_attr peak_locations
        (and_then (init_analysis [[10, 4, 0, - 1, 1]] (1 / 100) (0, 3) (3, 5) False 1 1 0)
           integrate_charges) = Inr [0]
   \<and> read_attr peak_locations
        (and_then (init_analysis [[20, 8, 0, - 1, 1]] (1 / 100) (0, 3) (3, 5) False 1 1 0)
           integrate_charges) = Inr [0]
   \<and> read_attr amplitudes
        (and_then (init_analysis [[10, 4, 0, - 1, 1]] (1 / 100) (0, 3) (3, 5) False 1 1 0)
           integrate_charges) = Inr [[10, 4, 0, - 1, 1]]
   \<and> read_attr amplitudes
        (and_then (init_analysis [[20, 8, 0, - 1, 1]] (1 / 100) (0, 3) (3, 5) False 1 1 0)
           integrate_charges) = Inr [[20, 8, 0, - 1, 1]]
   \<and> charge_mask [10, 4, 0, - 1, 1] 1 0 = [True, True, False, False, False]
   \<and> scale_region 2 [10, 4, 0, - 1, 1] [True, True, False, False, False] = [20, 8, 0, - 1, 1]
   \<and> \<not> (2 * 4 < 3 * (1::real))
   \<and> (\<exists>qs qs'.
        read_attr integrated_charges
          (and_then (init_analysis [[10, 4, 0, - 1, 1]] (1 / 100) (0, 3) (3, 5) False 1 1 0)
             integrate_charges) = Inr qs
      \<and> read_attr integrated_charges
          (and_then (init_analysis [[20, 8, 0, - 1, 1]] (1 / 100) (0, 3) (3, 5) False 1 1 0)
             integrate_charges) = Inr qs'
      \<and> qs ! 0 = 7 / 25 \<and> qs' ! 0 = 2 * qs ! 0)"
proof -
  let ?W = "[[10, 4, 0, - 1, 1 :: int]]"
  let ?W' = "[[20, 8, 0, - 1, 1 :: int]]"
  have h1: "valid_input ?W (0, 3) (3, 5) 1" by (simp add: valid_input_def)
  have h2: "valid_input ?W' (0, 3) (3, 5) 1" by (simp add: valid_input_def)
  have h3: "(0::nat) < length ?W" by simp
  have h4: "(0::nat) < length ?W'" by simp
  have h5: "(0::real) < 2" by simp
  from pulse_10_4_run obtain s0 where s0:
    "and_then (init_analysis ?W (1 / 100) (0, 3) (3, 5) False 1 1 0) integrate_charges = Inr s0"
    "amplitudes s0 = Some [[10, 4, 0, - 1, 1]]" "pedestal_sigmas s0 = Some [1]"
    "peak_locations s0 = Some [0]" "integrated_charges s0 = Some [7 / 25]"
    by (elim exE conjE) (rule that)
  from pulse_20_8_run obtain s1 where s1:
    "and_then (init_analysis ?W' (1 / 100) (0, 3) (3, 5) False 1 1 0) integrate_charges = Inr s1"
    "amplitudes s1 = Some [[20, 8, 0, - 1, 1]]" "pedestal_sigmas s1 = Some [1]"
    "peak_locations s1 = Some [0]" "integrated_charges s1 = Some [14 / 25]"
    by (elim exE conjE) (rule that)
  from charge_scaling[OF h1 h2 h3 h4 h5, of "1 / 100" False 1 0]
  obtain s s' amps amps' sigmas sigmas' locs locs' qs qs' where r:
    "and_then (init_analysis ?W (1 / 100) (0, 3) (3, 5) False 1 1 0) integrate_charges = Inr s"
    "and_then (init_analysis ?W' (1 / 100) (0, 3) (3, 5) False 1 1 0) integrate_charges = Inr s'"
    "amplitudes s = Some amps" "amplitudes s' = Some amps'"
    "pedestal_sigmas s = Some sigmas" "pedestal_sigmas s' = Some sigmas'"
    "peak_locations s = Some locs" "peak_locations s' = Some locs'"
    "integrated_charges s = Some qs" "integrated_charges s' = Some qs'"
    "sigmas' ! 0 = sigmas ! 0 \<and> locs' ! 0 = locs ! 0
       \<and> amps' ! 0 = scale_region 2 (amps ! 0)
            (charge_mask (amps ! 0) (sigmas ! 0) (fst (0::nat, 3::nat) div 1 + locs ! 0))
       \<and> (\<forall>j<length (amps ! 0).
              charge_mask (amps ! 0) (sigmas ! 0) (fst (0::nat, 3::nat) div 1 + locs ! 0) ! j
              \<and> j \<noteq> fst (0::nat, 3::nat) div 1 + locs ! 0
              \<longrightarrow> \<not> 2 * amps ! 0 ! j < 3 * sigmas ! 0)
       \<longrightarrow> qs' ! 0 = 2 * qs ! 0"
    by (elim exE conjE) (rule that)
  have e: "s = s0" "s' = s1" using r(1,2) s0(1) s1(1) by simp_all
  have v: "amps = [[10, 4, 0, - 1, 1]]" "amps' = [[20, 8, 0, - 1, 1]]"
    "sigmas = [1]" "sigmas' = [1]" "locs = [0]" "locs' = [0]" "qs = [7 / 25]"
    using r(3-9) s0(2-5) s1(2-4) unfolding e by simp_all
  have m: "charge_mask [10, 4, 0, - 1, 1] 1 0 = [True, True, False, False, False]"
    by (rule mask_10_4)
  have sc: "scale_region 2 [10, 4, 0, - 1, 1] [True, True, False, False, False]
              = [20, 8, 0, - 1, 1]"
    by (simp add: scale_region_def)
  have stay: "\<forall>j<length [10, 4, 0, - 1, 1 :: real].
      [True, True, False, False, False] ! j \<and> j \<noteq> 0
      \<longrightarrow> \<not> 2 * [10, 4, 0, - 1, 1 :: real] ! j < 3 * 1"
    by (auto simp: nth_Cons' split: if_splits)
  have q: "qs' ! 0 = 2 * qs ! 0"
    using r(11) m sc stay unfolding v by simp
  have q0: "qs ! 0 = 7 / 25" unfolding v by simp
  have ra: "read_attr integrated_charges
          (and_then (init_analysis ?W (1 / 100) (0, 3) (3, 5) False 1 1 0) integrate_charges)
          = Inr qs"
    by (rule read_attr_Inr[where field = integrated_charges, OF r(1) r(9)])
  have rb: "read_attr integrated_charges
          (and_then (init_analysis ?W' (1 / 100) (0, 3) (3, 5) False 1 1 0) integrate_charges)
          = Inr qs'"
    by (rule read_attr_Inr[where field = integrated_charges, OF r(2) r(10)])
  have n: "\<not> (2 * 4 < 3 * (1::real))" by simp
  have ex: "\<exists>qs qs'.
        read_attr integrated_charges
          (and_then (init_analysis ?W (1 / 100) (0, 3) (3, 5) False 1 1 0) integrate_charges)
          = Inr qs
      \<and> read_attr integrated_charges
          (and_then (init_analysis ?W' (1 / 100) (0, 3) (3, 5) False 1 1 0) integrate_charges)
          = Inr qs'
      \<and> qs ! 0 = 7 / 25 \<and> qs' ! 0 = 2 * qs ! 0"
    by (intro exI conjI) (rule ra rb q0 q)+
  show ?thesis
    by (intro conjI) (rule h1 h2 h3 h4 h5 m sc n ex
          read_attr_Inr[where field = pedestal_sigmas, OF s0(1) s0(3)]
          read_attr_Inr[where field = pedestal_sigmas, OF s1(1) s1(3)]
          read_attr_Inr[where field = peak_locations, OF s0(1) s0(4)]
          read_attr_Inr[where field = peak_locations, OF s1(1) s1(4)]
          read_attr_Inr[where field = amplitudes, OF s0(1) s0(2)]
          read_attr_Inr[where field = amplitudes, OF s1(1) s1(2)])+
qed

text \<open>
  Claim C5 as stated fails at \<open>c = 1/2\<close>: halving the region samples 10, 4 gives 5, 2,
  and 2 is below the threshold 3, so the region of the scaled waveform is sample 0 alone
  and its charge is 5 / 50 = 1/10, not half of 7/25.
\<close>

theorem charge_scaling_counterexample:
  "read_attr amplitudes
      (and_then (init_analysis [[10, 4, 0, - 1, 1]] (1 / 100) (0, 3) (3, 5) False 1 1 0)
         integrate_charges) = Inr [[10, 4, 0, - 1, 1]]
   \<and> read_attr pedestal_sigmas
      (and_then (init_analysis [[10, 4, 0, - 1, 1]] (1 / 100) (0, 3) (3, 5) False 1 1 0)
         integrate_charges) = Inr [1]
   \<and> read_attr peak_locations
      (and_then (init_analysis [[10, 4, 0, - 1, 1]] (1 / 100) (0, 3) (3, 5) False 1 1 0)
         integrate_charges) = Inr [0]
   \<and> charge_mask [10, 4, 0, - 1, 1] 1 0 = [True, True, False, False, False]
   \<and> (0::real) < 1 / 2
   \<and> read_attr amplitudes
      (and_then (init_analysis [[5, 2, 0, - 1, 1]] (1 / 100) (0, 3) (3, 5) False 1 1 0)
         integrate_charges)
      = Inr [scale_region (1 / 2) [10, 4, 0, - 1, 1] [True, True, False, False, False]]
   \<and> read_attr integrated_charges
      (and_then (init_analysis [[10, 4, 0, - 1, 1]] (1 / 100) (0, 3) (3, 5) False 1 1 0)
         integrate_charges) = Inr [7 / 25]
   \<and> read_attr integrated_charges
      (and_then (init_analysis [[5, 2, 0, - 1, 1]] (1 / 100) (0, 3) (3, 5) False 1 1 0)
         integrate_charges) = Inr [1 / 10]
   \<and> (1 / 10 :: real) \<noteq> 1 / 2 * (7 / 25)"
proof -
  from pulse_10_4_run obtain s0 where s0:
    "and_then (init_analysis [[10, 4, 0, - 1, 1]] (1 / 100) (0, 3) (3, 5) False 1 1 0)
       integrate_charges = Inr s0"
    "amplitudes s0 = Some [[10, 4, 0, - 1, 1]]" "pedestal_sigmas s0 = Some [1]"
    "peak_locations s0 = Some [0]" "integrated_charges s0 = Some [7 / 25]"
    by (elim exE conjE) (rule that)
  from pulse_5_2_run obtain s1 where s1:
    "and_then (init_analysis [[5, 2, 0, - 1, 1]] (1 / 100) (0, 3) (3, 5) False 1 1 0)
       integrate_charges = Inr s1"
    "amplitudes s1 = Some [[5, 2, 0, - 1, 1]]" "pedestal_sigmas s1 = Some [1]"
    "peak_locations s1 = Some [0]" "integrated_charges s1 = Some [1 / 10]"
    by (elim exE conjE) (rule that)
  have sc: "[scale_region (1 / 2) [10, 4, 0, - 1, 1] [True, True, False, False, False]]
              = [[5, 2, 0, - 1, 1 :: real]]"
    by (simp add: scale_region_def)
  show ?thesis
    unfolding sc
    by (intro conjI mask_10_4
          read_attr_Inr[where field = amplitudes, OF s0(1) s0(2)]
          read_attr_Inr[where field = pedestal_sigmas, OF s0(1) s0(3)]
          read_attr_Inr[where field = peak_locations, OF s0(1) s0(4)]
          read_attr_Inr[where field = amplitudes, OF s1(1) s1(2)]
          read_attr_Inr[where field = integrated_charges, OF s0(1) s0(5)]
          read_attr_Inr[where field = integrated_charges, OF s1(1) s1(5)])
       simp_all
qed


subsection \<open>Running the analysis again\<close>

text \<open>
  Each stage reads and writes attributes of the object. A state that holds what a stage
  has written, next to the attributes the stage reads, is left as it is by that stage.
\<close>

lemma signal_time_entry_cong:
  "analysis_bins s = analysis_bins s' \<Longrightarrow> analysis_window s = analysis_window s'
     \<Longrightarrow> signal_time_entry s = signal_time_entry s'"
  by (intro ext) (simp add: signal_time_entry_def Let_def split: list.split)

lemma update_same:
  "peak_locations s = Some l \<Longrightarrow> peak_times s = Some t \<Longrightarrow> peak_voltages s = Some v
     \<Longrightarrow> s\<lparr>peak_locations := Some l, peak_times := Some t, peak_voltages := Some v\<rparr> = s"
  "signal_times s = Some ts \<Longrightarrow> s\<lparr>signal_times := Some ts\<rparr> = s"
  "is_over_threshold s = Some bs \<Longrightarrow> s\<lparr>is_over_threshold := Some bs\<rparr> = s"
  by (cases s; simp)+

lemma find_peaks_again:
  assumes "find_peaks s0 = Inr s1"
    and "amplitudes s = amplitudes s1" "analysis_bins s = analysis_bins s1"
    and "analysis_window s = analysis_window s1" "ns_per_sample s = ns_per_sample s1"
    and "peak_locations s = peak_locations s1" "peak_times s = peak_times s1"
    and "peak_voltages s = peak_voltages s1"
  shows "find_peaks s = Inr s"
proof -
  from assms(1) obtain sa amps window locs where a:
    "(if amplitudes s0 = None then find_pedestals s0 else Inr s0) = Inr sa"
    "attr (amplitudes sa) = Inr amps"
    "take_columns amps (analysis_bins sa) = Inr window"
    "sequence (map np_argmax window) = Inr locs"
    "s1 = sa\<lparr> peak_locations := Some locs,
                 peak_times := Some (map (\<lambda>l. real (fst (analysis_window sa))
                                  + (real l + 1 / 2) * real (ns_per_sample sa)) locs),
                 peak_voltages := Some (map2 (\<lambda>row l. row ! l) window locs) \<rparr>"
    unfolding find_peaks_def and_then_eq_Inr by blast
  have am: "amplitudes sa = Some amps" using a(2) by (simp add: attr_def split: option.splits)
  have f: "amplitudes s = Some amps" "analysis_bins s = analysis_bins sa"
    "analysis_window s = analysis_window sa" "ns_per_sample s = ns_per_sample sa"
    "peak_locations s = Some locs"
    "peak_times s = Some (map (\<lambda>l. real (fst (analysis_window sa))
                                  + (real l + 1 / 2) * real (ns_per_sample sa)) locs)"
    "peak_voltages s = Some (map2 (\<lambda>row l. row ! l) window locs)"
    using assms(2-8) am unfolding a(5) by simp_all
  show ?thesis
    unfolding find_peaks_def
    by (simp add: f attr_def a(3,4) update_same(1)[OF f(5,6,7)])
qed

lemma calculate_signal_times_again:
  assumes "calculate_signal_times s1 = Inr s2" and "peak_locations s1 \<noteq> None"
    and "amplitudes s = amplitudes s2" "analysis_bins s = analysis_bins s2"
    and "analysis_window s = analysis_window s2" "ns_per_sample s = ns_per_sample s2"
    and "time_offset s = time_offset s2"
    and "peak_locations s = peak_locations s2" "peak_voltages s = peak_voltages s2"
    and "signal_times s = signal_times s2"
  shows "calculate_signal_times s = Inr s"
    and "s2 = s1\<lparr>signal_times := signal_times s2\<rparr>"
proof -
  from assms(1,2) obtain peaks locs amps entries where a:
    "attr (peak_voltages s1) = Inr peaks" "attr (peak_locations s1) = Inr locs"
    "attr (amplitudes s1) = Inr amps"
    "sequence (map (\<lambda>(peak, loc, amp). signal_time_entry s1 peak loc amp)
                          (zip peaks (zip locs amps))) = Inr entries"
    "s2 = s1\<lparr> signal_times :=
                   Some (map (\<lambda>t. t * real (ns_per_sample s1) + time_offset s1) entries) \<rparr>"
    unfolding calculate_signal_times_def and_then_eq_Inr by auto
  have b: "peak_voltages s1 = Some peaks" "peak_locations s1 = Some locs"
    "amplitudes s1 = Some amps"
    using a(1,2,3) by (simp_all add: attr_def split: option.splits)
  have f: "amplitudes s = Some amps" "analysis_bins s = analysis_bins s1"
    "analysis_window s = analysis_window s1" "ns_per_sample s = ns_per_sample s1"
    "time_offset s = time_offset s1" "peak_locations s = Some locs"
    "peak_voltages s = Some peaks"
    "signal_times s = Some (map (\<lambda>t. t * real (ns_per_sample s1) + time_offset s1) entries)"
    using assms(3-10) b unfolding a(5) by simp_all
  have e: "signal_time_entry s = signal_time_entry s1"
    by (rule signal_time_entry_cong[OF f(2,3)])
  show "calculate_signal_times s = Inr s"
    unfolding calculate_signal_times_def
    by (simp add: f(1-7) e attr_def a(4) update_same(2)[OF f(8)])
  show "s2 = s1\<lparr>signal_times := signal_times s2\<rparr>"
    unfolding a(5) by simp
qed

lemma integrate_charges_again:
  assumes "integrate_charges s2 = Inr s3" and "peak_locations s2 \<noteq> None"
    and "amplitudes s = amplitudes s3" "analysis_bins s = analysis_bins s3"
    and "ns_per_sample s = ns_per_sample s3" "pedestal_sigmas s = pedestal_sigmas s3"
    and "peak_locations s = peak_locations s3"
    and "integrated_charges s = integrated_charges s3"
  shows "integrate_charges s = Inr s"
    and "s3 = s2\<lparr>integrated_charges := integrated_charges s3\<rparr>"
proof -
  have "analysis_bins s2 \<noteq> []"
    using assms(1,2)
    by (auto simp: integrate_charges_def and_then_eq_Inr split: list.splits)
  then obtain b0 bs where bb: "analysis_bins s2 = b0 # bs"
    by (auto simp: neq_Nil_conv)
  from assms(1,2) bb obtain amps sigmas locs where a:
    "attr (amplitudes s2) = Inr amps" "attr (pedestal_sigmas s2) = Inr sigmas"
    "attr (peak_locations s2) = Inr locs" "analysis_bins s2 = b0 # bs"
    "s3 = s2\<lparr> integrated_charges :=
                   Some (map (\<lambda>(amp, sigma, loc).
                                masked_sum amp sigma (loc + b0)
                                  * (real (ns_per_sample s2) / real impedance))
                             (zip amps (zip sigmas locs))) \<rparr>"
    by (auto simp: integrate_charges_def and_then_eq_Inr)
  have b: "amplitudes s2 = Some amps" "pedestal_sigmas s2 = Some sigmas"
    "peak_locations s2 = Some locs"
    using a(1,2,3) by (simp_all add: attr_def split: option.splits)
  have f: "amplitudes s = Some amps" "analysis_bins s = b0 # bs"
    "ns_per_sample s = ns_per_sample s2" "pedestal_sigmas s = Some sigmas"
    "peak_locations s = Some locs"
    "integrated_charges s = Some (map (\<lambda>(amp, sigma, loc).
                                masked_sum amp sigma (loc + b0)
                                  * (real (ns_per_sample s2) / real impedance))
                             (zip amps (zip sigmas locs)))"
    using assms(3-8) b a(4) unfolding a(5) by simp_all
  have "integrate_charges s = Inr (s\<lparr>integrated_charges := integrated_charges s\<rparr>)"
    unfolding f(6) unfolding integrate_charges_def by (simp add: f(1-5) attr_def)
  then show "integrate_charges s = Inr s" by simp
  show "s3 = s2\<lparr>integrated_charges := integrated_charges s3\<rparr>"
    unfolding a(5) by simp
qed

lemma run_analysis_again:
  assumes "run_analysis s0 = Inr s"
  shows "run_analysis s = Inr s"
proof -
  from assms obtain s1 s2 s3 peaks where r:
    "find_peaks s0 = Inr s1" "calculate_signal_times s1 = Inr s2"
    "integrate_charges s2 = Inr s3" "attr (peak_voltages s3) = Inr peaks"
    "s = s3\<lparr>is_over_threshold := Some (map (\<lambda>p. threshold s3 < p) peaks)\<rparr>"
    unfolding run_analysis_def and_then_eq_Inr by blast
  have p1: "peak_locations s1 \<noteq> None" by (rule find_peaks_sets(1)[OF r(1)])
  have e2: "s2 = s1\<lparr>signal_times := signal_times s2\<rparr>"
    by (rule calculate_signal_times_again(2)[OF r(2) p1]) simp_all
  have p2: "peak_locations s2 \<noteq> None" using p1 by (subst e2) simp
  have e3: "s3 = s2\<lparr>integrated_charges := integrated_charges s3\<rparr>"
    by (rule integrate_charges_again(2)[OF r(3) p2]) simp_all
  have pv: "peak_voltages s3 = Some peaks"
    using r(4) by (simp add: attr_def split: option.splits)
  have a: "find_peaks s = Inr s"
    by (rule find_peaks_again[OF r(1)]; subst r(5); subst e3; subst e2; simp)
  have b: "calculate_signal_times s = Inr s"
    by (rule calculate_signal_times_again(1)[OF r(2) p1]; subst r(5); subst e3; simp)
  have c: "integrate_charges s = Inr s"
    by (rule integrate_charges_again(1)[OF r(3) p2]; subst r(5); simp)
  have d: "peak_voltages s = Some peaks" "threshold s = threshold s3"
    "is_over_threshold s = Some (map (\<lambda>p. threshold s3 < p) peaks)"
    using pv by (simp_all add: r(5))
  show ?thesis
    unfolding run_analysis_def
    by (simp add: a b c d(1,2) attr_def update_same(3)[OF d(3)])
qed


lemma run_analysis_valid:
  fixes rp :: bool and vs :: real
  assumes "valid_input wfs aw pw ns"
  defines "amps \<equiv> map (corrected_row rp vs [fst pw div ns..<snd pw div ns]) wfs"
  defines "bins \<equiv> [fst aw div ns..<snd aw div ns]"
  defines "volts \<equiv> map (\<lambda>row. window_of bins row ! first_max (window_of bins row)) amps"
  shows "\<exists>s. and_then (init_analysis wfs thr aw pw rp ns vs off) run_analysis = Inr s
     \<and> peak_voltages s = Some volts
     \<and> is_over_threshold s = Some (map (\<lambda>p. thr < p) volts)"
proof -
  note v = valid_inputD[OF assms(1)]
  obtain s0 where s0: "init_analysis wfs thr aw pw rp ns vs off = Inr s0"
    using init_analysis_valid[OF assms(1)] by blast
  obtain s1 where s1:
    "and_then (init_analysis wfs thr aw pw rp ns vs off) find_peaks = Inr s1"
    "amplitudes s1 = Some amps"
    "pedestal_sigmas s1
       = Some (map (\<lambda>raw. np_std (quiet_samples vs [fst pw div ns..<snd pw div ns] raw)) wfs)"
    "peak_locations s1 = Some (map (\<lambda>row. first_max (window_of bins row)) amps)"
    "peak_voltages s1 = Some volts"
    "analysis_bins s1 = bins" "threshold s1 = thr"
    unfolding amps_def bins_def volts_def
    using peaks_from_fresh[OF assms(1), of thr rp vs off] by blast
  have fp: "find_peaks s0 = Inr s1" using s1(1) unfolding s0 by simp
  obtain s2 where cs0:
    "and_then (init_analysis wfs thr aw pw rp ns vs off) calculate_signal_times = Inr s2"
    using signal_times_from_fresh[OF assms(1), of thr rp vs off] by blast
  have cs: "calculate_signal_times s1 = Inr s2"
    using cs0 unfolding calculate_signal_times_fresh s1(1) by simp
  have p1: "peak_locations s1 \<noteq> None" using s1(4) by simp
  have e2: "s2 = s1\<lparr>signal_times := signal_times s2\<rparr>"
    by (rule calculate_signal_times_again(2)[OF cs p1]) simp_all
  have f2: "amplitudes s2 = Some amps"
    "pedestal_sigmas s2
       = Some (map (\<lambda>raw. np_std (quiet_samples vs [fst pw div ns..<snd pw div ns] raw)) wfs)"
    "peak_locations s2 = Some (map (\<lambda>row. first_max (window_of bins row)) amps)"
    "peak_voltages s2 = Some volts" "analysis_bins s2 = bins" "threshold s2 = thr"
    using s1(2-7) by (subst e2, simp)+
  have bb: "analysis_bins s2 = fst aw div ns # [Suc (fst aw div ns)..<snd aw div ns]"
    unfolding f2(5) bins_def using v(4) by (rule upt_conv_Cons)
  obtain qs where ic:
    "integrate_charges s2 = Inr (s2\<lparr>integrated_charges := Some qs\<rparr>)"
    using integrate_charges_rows[OF f2(3) f2(1) f2(2) bb] by (auto simp: amps_def)
  have run: "run_analysis s0
      = Inr (s2\<lparr>integrated_charges := Some qs,
                 is_over_threshold := Some (map (\<lambda>p. thr < p) volts)\<rparr>)"
    unfolding run_analysis_def by (simp add: fp cs ic attr_def f2(4,6))
  show ?thesis
    unfolding s0 and_then_Inr run by (intro exI conjI) (rule refl, simp add: f2(4), simp)
qed

text \<open>
  Claim C8. The run on a fresh object is a function of the batch and the configuration
  alone; on every valid input it returns, and running the analysis again on the object
  it leaves, with every attribute the first run has cached, reproduces that object:
  pedestals, sigmas, peak locations, times and voltages, signal times, charges and
  threshold flags are all the same.
\<close>

theorem run_analysis_deterministic:
  assumes "valid_input wfs aw pw ns"
  shows "\<exists>s. and_then (init_analysis wfs thr aw pw rp ns vs off) run_analysis = Inr s
     \<and> run_analysis s = Inr s"
proof -
  obtain s0 where s0: "init_analysis wfs thr aw pw rp ns vs off = Inr s0"
    using init_analysis_valid[OF assms] by blast
  obtain s where s: "and_then (init_analysis wfs thr aw pw rp ns vs off) run_analysis = Inr s"
    using run_analysis_valid[OF assms, of thr rp vs off] by blast
  have "run_analysis s0 = Inr s" using s unfolding s0 by simp
  then have "run_analysis s = Inr s" by (rule run_analysis_again)
  with s show ?thesis by blast
qed

text \<open>The claim at the pulse 0, 4, 10, 4, 0 with pedestal samples -1, 1.\<close>

theorem run_analysis_deterministic_witness:
  "valid_input [[0, 4, 10, 4, 0, - 1, 1]] (0, 5) (5, 7) 1
   \<and> (\<exists>s. and_then (init_analysis [[0, 4, 10, 4, 0, - 1, 1]] (1 / 100) (0, 5) (5, 7) False 1 1 0)
             run_analysis = Inr s
        \<and> run_analysis s = Inr s
        \<and> peak_voltages s = Some [10] \<and> is_over_threshold s = Some [True])"
proof -
  let ?W = "[[0, 4, 10, 4, 0, - 1, 1 :: int]]"
  have h1: "valid_input ?W (0, 5) (5, 7) 1" by (simp add: valid_input_def)
  from run_analysis_deterministic[OF h1, of "1 / 100" False 1 0]
  obtain s where s:
    "and_then (init_analysis ?W (1 / 100) (0, 5) (5, 7) False 1 1 0) run_analysis = Inr s"
    "run_analysis s = Inr s"
    by (elim exE conjE) (rule that)
  from run_analysis_valid[OF h1, of "1 / 100" False 1 0]
  obtain s' where s':
    "and_then (init_analysis ?W (1 / 100) (0, 5) (5, 7) False 1 1 0) run_analysis = Inr s'"
    "peak_voltages s' = Some (map (\<lambda>row. window_of [fst (0::nat, 5::nat) div 1..<snd (0::nat, 5::nat) div 1] row
          ! first_max (window_of [fst (0::nat, 5::nat) div 1..<snd (0::nat, 5::nat) div 1] row))
        (map (corrected_row False 1 [fst (5::nat, 7::nat) div 1..<snd (5::nat, 7::nat) div 1]) ?W))"
    "is_over_threshold s' = Some (map (\<lambda>p. 1 / 100 < p)
        (map (\<lambda>row. window_of [fst (0::nat, 5::nat) div 1..<snd (0::nat, 5::nat) div 1] row
          ! first_max (window_of [fst (0::nat, 5::nat) div 1..<snd (0::nat, 5::nat) div 1] row))
        (map (corrected_row False 1 [fst (5::nat, 7::nat) div 1..<snd (5::nat, 7::nat) div 1]) ?W)))"
    by (elim exE conjE) (rule that)
  have e: "s' = s" using s(1) s'(1) by simp
  have volts: "map (\<lambda>row. window_of [fst (0::nat, 5::nat) div 1..<snd (0::nat, 5::nat) div 1] row
          ! first_max (window_of [fst (0::nat, 5::nat) div 1..<snd (0::nat, 5::nat) div 1] row))
        (map (corrected_row False 1 [fst (5::nat, 7::nat) div 1..<snd (5::nat, 7::nat) div 1]) ?W)
      = [10]"
    by (simp add: corrected_row_def scaled_row_def quiet_samples_def np_mean_def
          window_of_def first_max_def upt_rec)
  have pv: "peak_voltages s = Some [10]" using s'(2) unfolding e volts .
  have ot: "is_over_threshold s = Some [True]" using s'(3) unfolding e volts by simp
  show ?thesis
    by (intro conjI exI) (rule h1 s(1) s(2) pv ot)+
qed


subsection \<open>Stage order\<close>

text \<open>
  Claim C10. Each later stage runs the missing earlier ones itself: on a freshly
  constructed object, \<open>find_peaks\<close> alone gives what \<open>find_pedestals\<close> followed by
  \<open>find_peaks\<close> gives, and \<open>calculate_signal_times\<close> or \<open>integrate_charges\<close> alone give
  what the documented order pedestal, peak, then timing or charge gives: the same object
  with the same pedestals, peaks, signal times and charges, or the same error.
\<close>

theorem lazy_stages_agree_with_documented_order:
  "and_then (init_analysis wfs thr aw pw rp ns vs off) find_peaks =
     and_then (and_then (init_analysis wfs thr aw pw rp ns vs off) find_pedestals) find_peaks
   \<and> and_then (init_analysis wfs thr aw pw rp ns vs off) calculate_signal_times =
     and_then (and_then (and_then (init_analysis wfs thr aw pw rp ns vs off) find_pedestals)
                 find_peaks) calculate_signal_times
   \<and> and_then (init_analysis wfs thr aw pw rp ns vs off) integrate_charges =
     and_then (and_then (and_then (init_analysis wfs thr aw pw rp ns vs off) find_pedestals)
                 find_peaks) integrate_charges"
proof (cases "init_analysis wfs thr aw pw rp ns vs off")
  case (Inl e)
  then show ?thesis by simp
next
  case (Inr s)
  note fresh = init_analysis_fresh[OF Inr]
  have pk: "find_peaks s = and_then (find_pedestals s) find_peaks"
    by (rule find_peaks_after_pedestals[OF fresh(1)])
  have st: "calculate_signal_times s = and_then (find_peaks s) calculate_signal_times"
    by (rule calculate_signal_times_after_peaks[OF fresh(2)])
  have ch: "integrate_charges s = and_then (find_peaks s) integrate_charges"
    by (rule integrate_charges_after_peaks[OF fresh(2)])
  show ?thesis
    unfolding Inr and_then_Inr
    using pk st ch by simp
qed

end
